theory Spec2Isabelle
  imports Complex_Main "HOL-Library.Sublist" "HOL-Library.Word" "HOL-Library.Char_ord" "HOL-Library.List_Lexorder" "HOL-Library.Log_Nat"
begin

unbundle bit_operations_syntax

section \<open>Event model (gui.go, Context)\<close>

text \<open>
  Times (\<^verbatim>\<open>time.Time\<close>) and durations (\<^verbatim>\<open>time.Duration\<close>) are integers counting
  nanoseconds. \<^verbatim>\<open>input.Button\<close> is an integer type in Go; the values of its named
  constants come from the \<^verbatim>\<open>input\<close> package. The assignment below gives the eight
  physical buttons the indices of the button-state array (\<^verbatim>\<open>nbuttons = 8\<close>) and puts the
  synthetic \<^verbatim>\<open>Rune\<close> and \<^verbatim>\<open>Screenshot\<close> buttons outside of it. The Go compiler already
  guarantees what the model relies on: the constants are pairwise distinct (they label
  the cases of one \<^verbatim>\<open>switch\<close>) and \<^verbatim>\<open>Button2\<close>, \<^verbatim>\<open>Button3\<close> index the array.
\<close>

type_synonym button = nat
type_synonym time = int

definition nbuttons :: nat where "nbuttons = 8"

definition Up :: button where "Up = 0"
definition Down :: button where "Down = 1"
definition Left :: button where "Left = 2"
definition Right :: button where "Right = 3"
definition Center :: button where "Center = 4"
definition Button1 :: button where "Button1 = 5"
definition Button2 :: button where "Button2 = 6"
definition Button3 :: button where "Button3 = 7"
definition Rune_button :: button where "Rune_button = 8"
definition Screenshot :: button where "Screenshot = 9"

lemmas button_defs = Up_def Down_def Left_def Right_def Center_def Button1_def Button2_def
  Button3_def Rune_button_def Screenshot_def

record input_Event =
  Button :: button
  Pressed :: bool
  Rune :: int

record Event = input_Event +
  Click :: bool

text \<open>\<^verbatim>\<open>Event{Event: e}\<close>: the input event with the click flag at its zero value.\<close>

definition mkEvent :: "input_Event \<Rightarrow> Event" where
  "mkEvent e = \<lparr>Button = Button e, Pressed = Pressed e, Rune = Rune e, Click = False\<rparr>"

record Context =
  Buttons :: "bool list"
  Repeats :: "time list"
  Calibrated :: bool
  NoSDCard :: bool
  EnableSeedScan :: bool
  events :: "Event list"

definition repeatStartDelay :: int where "repeatStartDelay = 400000000"
definition repeatDelay :: int where "repeatDelay = 100000000"

definition isRepeatButton :: "button \<Rightarrow> bool" where
  "isRepeatButton b = (b = Up \<or> b = Down \<or> b = Right \<or> b = Left)"

text \<open>
  One iteration of the loop of \<^verbatim>\<open>Context.Events\<close>. The wake-up requested with
  \<^verbatim>\<open>WakeupAfter\<close> only schedules a later frame and is not part of the state.
\<close>

definition Events1 :: "time \<Rightarrow> Context \<Rightarrow> input_Event \<Rightarrow> Context" where
  "Events1 now c e =
     (let e2 = mkEvent e in
      if Button e < length (Buttons c) then
        let e2' = e2\<lparr>Click := \<not> Pressed e \<and> Buttons c ! Button e\<rparr>;
            c1 = c\<lparr>Buttons := (Buttons c)[Button e := Pressed e]\<rparr>;
            c2 = (if Pressed e \<and> isRepeatButton (Button e)
                  then c1\<lparr>Repeats := (Repeats c1)[Button e := now + repeatStartDelay]\<rparr>
                  else c1)
        in c2\<lparr>events := events c2 @ [e2']\<rparr>
      else c\<lparr>events := events c @ [e2]\<rparr>)"

definition Events :: "time \<Rightarrow> Context \<Rightarrow> input_Event list \<Rightarrow> Context" where
  "Events now c evts = foldl (Events1 now) c evts"

text \<open>\<^verbatim>\<open>Context.Next\<close>: pop the oldest queued event.\<close>

definition Next :: "Context \<Rightarrow> (Event \<times> Context) option" where
  "Next c = (case events c of [] \<Rightarrow> None | e # rest \<Rightarrow> Some (e, c\<lparr>events := rest\<rparr>))"

text \<open>
  \<^verbatim>\<open>Context.Repeat\<close>: every held repeat button whose repeat time has come queues a
  synthetic press. The loop runs over the indices of the button array.
\<close>

definition Repeat1 :: "time \<Rightarrow> Context \<Rightarrow> nat \<Rightarrow> Context" where
  "Repeat1 now c btn =
     (if \<not> Buttons c ! btn \<or> \<not> isRepeatButton btn then c
      else if now < Repeats c ! btn then c
      else c\<lparr>events := events c @ [\<lparr>Button = btn, Pressed = True, Rune = 0, Click = False\<rparr>],
              Repeats := (Repeats c)[btn := now + repeatDelay]\<rparr>)"

definition Repeat :: "time \<Rightarrow> Context \<Rightarrow> Context" where
  "Repeat now c = foldl (Repeat1 now) c [0 ..< length (Buttons c)]"

section \<open>Confirm-hold timer (gui.go, ConfirmDelay)\<close>

text \<open>
  \<^verbatim>\<open>Progress\<close> computes in floating point: \<^verbatim>\<open>Duration.Seconds\<close> and the division in
  \<^verbatim>\<open>float64\<close>, the conversion and the subtraction in \<^verbatim>\<open>float32\<close>. Go's floating-point
  operations are those of IEEE 754 with rounding to nearest, ties to even: each yields the
  exact result rounded to the significand of its type (53 bits for \<^verbatim>\<open>float64\<close>, 24 for
  \<^verbatim>\<open>float32\<close>). A floating-point value is the rational number it denotes. The exponent
  range is not bounded here: the values of \<^verbatim>\<open>Progress\<close> come from durations of at least
  one nanosecond and less than three hundred years, which are far from overflow and from
  the subnormal numbers of both types.
\<close>

text \<open>Rounding a rational number to the nearest integer, a tie to the even one.\<close>

definition rne :: "rat \<Rightarrow> int" where
  "rne q = (let f = \<lfloor>q\<rfloor>; r = q - of_int f in
            if r < 1 / 2 then f else if 1 / 2 < r then f + 1 else if even f then f else f + 1)"

text \<open>
  The binary exponent of a positive number \<open>x\<close>: the integer \<open>k\<close> for which \<open>x\<close> is at least
  \<open>2 powi k\<close> and less than \<open>2 powi (k + 1)\<close>.
\<close>

definition ilog2 :: "rat \<Rightarrow> int" where
  "ilog2 x = (if 1 \<le> x then bitlen \<lfloor>x\<rfloor> - 1 else - bitlen (\<lceil>1 / x\<rceil> - 1))"

text \<open>Rounding to a significand of \<open>p\<close> bits.\<close>

definition fl :: "nat \<Rightarrow> rat \<Rightarrow> rat" where
  "fl p x = (if x = 0 then 0 else
              let e = ilog2 \<bar>x\<bar> - int p + 1 in
              sgn x * of_int (rne (\<bar>x\<bar> / power_int 2 e)) * power_int 2 e)"

definition float64 :: "rat \<Rightarrow> rat" where "float64 = fl 53"

definition float32 :: "rat \<Rightarrow> rat" where "float32 = fl 24"

text \<open>Go's integer division and remainder truncate towards zero.\<close>

definition quo :: "int \<Rightarrow> int \<Rightarrow> int" where
  "quo a b = sgn a * sgn b * (\<bar>a\<bar> div \<bar>b\<bar>)"

definition rem :: "int \<Rightarrow> int \<Rightarrow> int" where
  "rem a b = a - b * quo a b"

text \<open>
  \<^verbatim>\<open>Duration.Seconds\<close> of the standard library:
  \<^verbatim>\<open>sec := d / Second; nsec := d % Second; return float64(sec) + float64(nsec)/1e9\<close>.
\<close>

definition Second :: int where "Second = 1000000000"

definition Seconds :: "int \<Rightarrow> rat" where
  "Seconds d =
     (let sec = quo d Second; nsec = rem d Second in
      float64 (float64 (of_int sec) + float64 (float64 (of_int nsec) / 1000000000)))"

text \<open>
  The timer holds one \<^verbatim>\<open>time.Time\<close>; its zero value, which \<^verbatim>\<open>Platform.Now\<close> never
  returns, means "not running" and is \<open>None\<close> here.
\<close>

record ConfirmDelay =
  timeout :: "time option"

definition confirmDelay :: int where "confirmDelay = 1000000000"

definition ConfirmDelay0 :: ConfirmDelay where
  "ConfirmDelay0 = \<lparr>timeout = None\<rparr>"

definition Start :: "time \<Rightarrow> int \<Rightarrow> ConfirmDelay" where
  "Start now delay = \<lparr>timeout = Some (now + delay)\<rparr>"

definition Running :: "ConfirmDelay \<Rightarrow> bool" where
  "Running c = (timeout c \<noteq> None)"

definition Progress :: "time \<Rightarrow> ConfirmDelay \<Rightarrow> rat" where
  "Progress now c =
     (case timeout c of
        None \<Rightarrow> 0
      | Some t \<Rightarrow>
          let d = t - now in
          if d \<le> 0 then 1
          else float32 (1 - float32 (float64 (Seconds d / Seconds confirmDelay))))"

text \<open>
  The specification's reading of the timer, for comparison: between the arming time and
  the deadline the progress is the elapsed fraction of the armed interval.
\<close>

definition spec_interpolation :: "time \<Rightarrow> time \<Rightarrow> time \<Rightarrow> rat" where
  "spec_interpolation armed deadline now = of_int (now - armed) / of_int (deadline - armed)"

section \<open>Descriptor validation (gui.go, validateDescriptor and DescriptorScreen)\<close>

type_synonym Path = "32 word list"

record KeyDescriptor =
  MasterFingerprint :: "32 word"
  DerivationPath :: Path
  KeyData :: "8 word list"
  ChainCode :: "8 word list"
  ParentFingerprint :: "32 word"

text \<open>The script type is an integer enumeration of the \<^verbatim>\<open>urtypes\<close> package.\<close>

record OutputDescriptor =
  Script :: nat
  Threshold :: int
  Sorted :: bool
  Keys :: "KeyDescriptor list"

datatype error =
    errDuplicateKey "32 word"
  | errNonstandardDerivation Path
  | ErrDescriptorTooLarge
  | errKeyNotInDescriptor
  | errorString string

text \<open>
  What \<^verbatim>\<open>validateDescriptor\<close> and \<^verbatim>\<open>NewErrorScreen\<close> call in other packages
  (\<^verbatim>\<open>urtypes\<close>, \<^verbatim>\<open>backup\<close>, \<^verbatim>\<open>fmt\<close>) is a parameter of the model:
  \<^item> \<open>keyString\<close> is \<^verbatim>\<open>KeyDescriptor.String\<close>, the key's canonical public representation;
  \<^item> \<open>descDerivationPath\<close> is \<^verbatim>\<open>OutputDescriptor.DerivationPath\<close>, the expected standard path;
  \<^item> \<open>engraveError\<close> is the error result of the trial run
    \<^verbatim>\<open>engravePlate(desc, 0, m)\<close> with the fixed 24-word mnemonic \<^verbatim>\<open>m\<close>;
  \<^item> \<open>recoverable\<close> is \<^verbatim>\<open>backup.Recoverable\<close>;
  \<^item> \<open>pathString\<close> is the \<^verbatim>\<open>%v\<close> rendering of a path.
\<close>

record Externals =
  keyString :: "KeyDescriptor \<Rightarrow> string"
  descDerivationPath :: "OutputDescriptor \<Rightarrow> Path"
  engraveError :: "OutputDescriptor \<Rightarrow> error option"
  recoverable :: "OutputDescriptor \<Rightarrow> bool"
  pathString :: "Path \<Rightarrow> string"

text \<open>
  The loop over \<^verbatim>\<open>desc.Keys\<close>; \<open>keys\<close> is the Go map from the representations seen
  so far to \<^verbatim>\<open>true\<close>.
\<close>

fun validateKeys :: "Externals \<Rightarrow> Path \<Rightarrow> (string \<Rightarrow> bool) \<Rightarrow> KeyDescriptor list \<Rightarrow> error option" where
  "validateKeys X expPath keys [] = None"
| "validateKeys X expPath keys (k # ks) =
     (let xpub = keyString X k in
      if keys xpub then Some (errDuplicateKey (MasterFingerprint k))
      else let keys' = keys(xpub := True) in
        if length expPath = 0 \<or> DerivationPath k \<noteq> expPath
        then Some (errNonstandardDerivation (DerivationPath k))
        else validateKeys X expPath keys' ks)"

definition notRecoverableMsg :: string where
  "notRecoverableMsg = ''Descriptor is not recoverable. That is a bug in the program; please report it.''"

definition validateDescriptor :: "Externals \<Rightarrow> OutputDescriptor \<Rightarrow> error option" where
  "validateDescriptor X desc =
     (let expPath = descDerivationPath X desc in
      case validateKeys X expPath (\<lambda>_. False) (Keys desc) of
        Some err \<Rightarrow> Some err
      | None \<Rightarrow>
         (case engraveError X desc of
            Some err \<Rightarrow> Some err
          | None \<Rightarrow>
             if \<not> recoverable X desc then Some (errorString notRecoverableMsg)
             else None))"

record ErrorScreen =
  Title :: string
  Body :: string

text \<open>\<^verbatim>\<open>%.8x\<close> of a 32-bit value: eight hexadecimal digits.\<close>

definition hexdigit :: "nat \<Rightarrow> char" where
  "hexdigit n = ''0123456789abcdef'' ! n"

definition hex8 :: "32 word \<Rightarrow> string" where
  "hex8 w = map (\<lambda>i. hexdigit (unat (drop_bit (4 * i) w AND 15))) [7, 6, 5, 4, 3, 2, 1, 0]"

fun NewErrorScreen :: "Externals \<Rightarrow> error \<Rightarrow> ErrorScreen" where
  "NewErrorScreen X (errNonstandardDerivation p) =
     \<lparr>Title = ''Non-standard Derivation'',
      Body = ''The derivation path '' @ pathString X p @ '' is not supported.''\<rparr>"
| "NewErrorScreen X (errDuplicateKey fp) =
     \<lparr>Title = ''Duplicated Share'',
      Body = ''The share '' @ hex8 fp @ '' is listed more than once in the wallet.''\<rparr>"
| "NewErrorScreen X ErrDescriptorTooLarge =
     \<lparr>Title = ''Too Large'', Body = ''The descriptor cannot fit any plate size.''\<rparr>"
| "NewErrorScreen X errKeyNotInDescriptor =
     \<lparr>Title = ''Unknown Share'', Body = ''The share is not part of the wallet.''\<rparr>"
| "NewErrorScreen X (errorString s) = \<lparr>Title = ''Error'', Body = s\<rparr>"

record ChoiceScreen =
  ch_Title :: string
  ch_Lead :: string
  Choices :: "string list"

text \<open>Of a \<^verbatim>\<open>SeedScreen\<close> only the two dialogs that \<^verbatim>\<open>NewEmptySeedScreen\<close> sets are kept.\<close>

record SeedScreen =
  seed_method :: "ChoiceScreen option"
  seed_seedlen :: "ChoiceScreen option"

definition NewEmptySeedScreen :: "Context \<Rightarrow> string \<Rightarrow> SeedScreen" where
  "NewEmptySeedScreen ctx title =
     (if EnableSeedScan ctx
      then \<lparr>seed_method = Some \<lparr>ch_Title = title, ch_Lead = ''Choose input method'',
                           Choices = [''KEYBOARD'', ''CAMERA'']\<rparr>,
            seed_seedlen = None\<rparr>
      else \<lparr>seed_method = None,
            seed_seedlen = Some \<lparr>ch_Title = title, ch_Lead = ''Choose number of words'',
                            Choices = [''12 WORDS'', ''24 WORDS'']\<rparr>\<rparr>)"

record DescriptorScreen =
  Descriptor :: OutputDescriptor
  cosigners :: "OutputDescriptor option"
  seed :: "SeedScreen option"
  ds_warning :: "ErrorScreen option"

text \<open>
  The screen's own button map in \<^verbatim>\<open>DescriptorScreen.Layout\<close> (the \<^verbatim>\<open>switch e.Button\<close>
  reached when no child screen is active), for one event. The first component is
  \<open>True\<close> when \<^verbatim>\<open>Layout\<close> returns \<^verbatim>\<open>true\<close> at this event.
\<close>

definition DescriptorScreen_event ::
  "Externals \<Rightarrow> Context \<Rightarrow> DescriptorScreen \<Rightarrow> Event \<Rightarrow> bool \<times> DescriptorScreen" where
  "DescriptorScreen_event X ctx s e =
     (if Button e = Button1 then (Click e, s)
      else if Button e = Button2 then
        (if \<not> Click e then (False, s)
         else (False, s\<lparr>cosigners := Some (Descriptor s)\<rparr>))
      else if Button e = Button3 then
        (if \<not> Click e then (False, s)
         else case validateDescriptor X (Descriptor s) of
            Some err \<Rightarrow> (False, s\<lparr>ds_warning := Some (NewErrorScreen X err)\<rparr>)
          | None \<Rightarrow> (False, s\<lparr>seed := Some (NewEmptySeedScreen ctx ''Input Share'')\<rparr>))
      else (False, s))"

section \<open>Scan session (gui.go, ScanScreen.parseQR)\<close>

text \<open>
  The multi-part decoder (\<^verbatim>\<open>ur.Decoder\<close>) and \<^verbatim>\<open>urtypes.Parse\<close> belong to other
  packages and are parameters: \<open>'d\<close> is the decoder's state, \<open>ur_empty\<close> the zero
  decoder \<^verbatim>\<open>ur.Decoder{}\<close>, \<open>ur_Add d f\<close> the pair of "Add returned an error" and
  the state after the call, \<open>ur_Result d\<close> the triple of type, payload (\<open>None\<close> for
  \<^verbatim>\<open>nil\<close>) and "Result returned an error", and \<open>ur_Parse\<close> yields \<open>None\<close> for a
  parse error.
\<close>

record ('d, 'v) URExt =
  ur_empty :: 'd
  ur_Add :: "'d \<Rightarrow> string \<Rightarrow> bool \<times> 'd"
  ur_Result :: "'d \<Rightarrow> string \<times> string option \<times> bool"
  ur_Parse :: "string \<Rightarrow> string \<Rightarrow> 'v option"

text \<open>
  \<^verbatim>\<open>strings.ToUpper\<close> on ASCII text. A string is its list of bytes; the letters \<open>a\<close> to
  \<open>z\<close> are mapped and every other byte is left as it is. Go maps the letters outside
  ASCII too; none of them becomes a byte of the prefix \<^verbatim>\<open>UR:\<close> that \<^verbatim>\<open>parseQR\<close> tests
  for, and the words of the keyboard hold ASCII letters only.
\<close>

definition upperChar :: "char \<Rightarrow> char" where
  "upperChar c = (if CHR ''a'' \<le> c \<and> c \<le> CHR ''z'' then char_of (of_char c - (32::nat)) else c)"

definition ToUpper :: "string \<Rightarrow> string" where
  "ToUpper s = map upperChar s"

text \<open>The value a scan yields: the raw bytes of the code, or a parsed multi-part payload.\<close>

datatype 'v scanned = Raw string | Parsed 'v

text \<open>
  \<^verbatim>\<open>parseQR\<close> reads and writes only \<^verbatim>\<open>s.decoder\<close>; the model takes and returns that
  field. The result \<open>Some v\<close> is \<^verbatim>\<open>(v, true)\<close> and \<open>None\<close> is \<^verbatim>\<open>(nil, false)\<close>.
\<close>

definition parseQR :: "('d, 'v) URExt \<Rightarrow> 'd \<Rightarrow> string \<Rightarrow> 'v scanned option \<times> 'd" where
  "parseQR U dec qr =
     (let uqr = ToUpper qr in
      if \<not> prefix ''UR:'' uqr then (Some (Raw qr), ur_empty U)
      else
        let (err, d1) = ur_Add U dec uqr;
            d2 = (if err then snd (ur_Add U (ur_empty U) uqr) else d1);
            (typ, enc, rerr) = ur_Result U d2
        in if rerr then (None, ur_empty U)
           else case enc of
                  None \<Rightarrow> (None, d2)
                | Some payload \<Rightarrow>
                    (case ur_Parse U typ payload of
                       None \<Rightarrow> (None, ur_empty U)
                     | Some v \<Rightarrow> (Some (Parsed v), ur_empty U)))"

section \<open>Hold-to-confirm dialog and error dialog (gui.go)\<close>

datatype ConfirmResult = ConfirmNone | ConfirmNo | ConfirmYes

record ConfirmWarningScreen =
  cw_Title :: string
  cw_Body :: string
  confirm :: ConfirmDelay

text \<open>
  The loop of \<^verbatim>\<open>ConfirmWarningScreen.Layout\<close> over the queued events. \<^verbatim>\<open>Platform.Now\<close>
  is read once per call of a \<^verbatim>\<open>Layout\<close>: within one frame the clock is \<open>now\<close>.
\<close>

fun cw_loop :: "time \<Rightarrow> ConfirmDelay \<Rightarrow> bool list \<Rightarrow> Event list
    \<Rightarrow> ConfirmResult \<times> ConfirmDelay \<times> bool list \<times> Event list" where
  "cw_loop now c btns [] =
     (if Progress now c = 1 then (ConfirmYes, c, btns, []) else (ConfirmNone, c, btns, []))"
| "cw_loop now c btns (e # rest) =
     (if Progress now c = 1 then (ConfirmYes, c, btns, e # rest)
      else if Button e = Button1 then
        (if Click e then (ConfirmNo, c, btns, rest) else cw_loop now c btns rest)
      else if Button e = Button3 then
        (if Pressed e then cw_loop now (Start now confirmDelay) (btns[Button3 := False]) rest
         else cw_loop now ConfirmDelay0 btns rest)
      else cw_loop now c btns rest)"

definition ConfirmWarningScreen_Layout ::
  "time \<Rightarrow> ConfirmWarningScreen \<Rightarrow> Context \<Rightarrow> ConfirmResult \<times> ConfirmWarningScreen \<times> Context" where
  "ConfirmWarningScreen_Layout now s ctx =
     (case cw_loop now (confirm s) (Buttons ctx) (events ctx) of
        (r, c, btns, evs) \<Rightarrow> (r, s\<lparr>confirm := c\<rparr>, ctx\<lparr>Buttons := btns, events := evs\<rparr>))"

text \<open>\<^verbatim>\<open>ErrorScreen.Layout\<close>: a click of button 3 dismisses the dialog.\<close>

fun es_loop :: "Event list \<Rightarrow> bool \<times> Event list" where
  "es_loop [] = (False, [])"
| "es_loop (e # rest) = (if Button e = Button3 \<and> Click e then (True, rest) else es_loop rest)"

definition ErrorScreen_Layout :: "Context \<Rightarrow> bool \<times> Context" where
  "ErrorScreen_Layout ctx = (case es_loop (events ctx) of (d, evs) \<Rightarrow> (d, ctx\<lparr>events := evs\<rparr>))"

section \<open>Engrave session (gui.go, EngraveScreen)\<close>

datatype InstructionType = PrepareInstruction | ConnectInstruction | EngraveInstruction

text \<open>
  Of an instruction the type and the plate side decide the control flow; its texts and
  image are only drawn and are left out.
\<close>

record Instruction =
  Type :: InstructionType
  Side :: nat

definition prepare :: Instruction where
  "prepare = \<lparr>Type = PrepareInstruction, Side = 0\<rparr>"

definition EngraveFirstSideA :: "Instruction list" where
  "EngraveFirstSideA = replicate 9 prepare @
     [\<lparr>Type = ConnectInstruction, Side = 0\<rparr>, \<lparr>Type = EngraveInstruction, Side = 0\<rparr>]"

definition EngraveSideA :: "Instruction list" where
  "EngraveSideA = replicate 4 prepare @
     [\<lparr>Type = ConnectInstruction, Side = 0\<rparr>, \<lparr>Type = EngraveInstruction, Side = 0\<rparr>]"

definition EngraveSideB :: "Instruction list" where
  "EngraveSideB = replicate 2 prepare @
     [\<lparr>Type = ConnectInstruction, Side = 0\<rparr>, \<lparr>Type = EngraveInstruction, Side = 1\<rparr>]"

definition EngraveSuccess :: "Instruction list" where
  "EngraveSuccess = [prepare]"

text \<open>
  A channel field holds \<open>True\<close> when the channel is not \<^verbatim>\<open>nil\<close>; a device handle is a
  number.
\<close>

record engraveState =
  dev :: "nat option"
  cancel :: bool
  progress :: bool
  errs :: bool
  lastProgress :: rat
  warning :: "ErrorScreen option"
  fatal :: bool

definition engraveState0 :: engraveState where
  "engraveState0 = \<lparr>dev = None, cancel = False, progress = False, errs = False,
                     lastProgress = 0, warning = None, fatal = False\<rparr>"

record EngraveScreen =
  instructions :: "Instruction list"
  plate_sides :: nat
  es_cancel :: "ConfirmWarningScreen option"
  step :: int
  dryRun_timeout :: "time option"
  dryRun_enabled :: bool
  engrave :: engraveState
  es_confirm :: ConfirmDelay

text \<open>
  \<^verbatim>\<open>NewEngraveScreen\<close> once the share was found in the descriptor and the plate was
  produced (before that it returns an error and no screen): \<open>nsides\<close> is
  \<^verbatim>\<open>len(plate.Sides)\<close>.
\<close>

definition NewEngraveScreen :: "Context \<Rightarrow> nat \<Rightarrow> EngraveScreen" where
  "NewEngraveScreen ctx nsides =
     \<lparr>instructions =
        (if \<not> Calibrated ctx then EngraveFirstSideA else EngraveSideA)
        @ (if nsides > 1 then EngraveSideB else [])
        @ EngraveSuccess,
      plate_sides = nsides, es_cancel = None, step = 0, dryRun_timeout = None,
      dryRun_enabled = False, engrave = engraveState0, es_confirm = ConfirmDelay0\<rparr>"

text \<open>
  Goroutines are kept as the sequence of their actions. The worker started by
  \<^verbatim>\<open>moveStep\<close> runs \<^verbatim>\<open>mjolnir.Engrave\<close>, then closes the device, then sends the result;
  the goroutine started by \<^verbatim>\<open>close\<close> closes the cancel channel and waits for the
  result or for five seconds.
\<close>

datatype action =
    CloseCancel
  | AwaitErrs int
  | RunEngrave "nat option" nat bool
  | CloseDev "nat option"
  | SendErr
  | FeedProgram nat

definition teardown :: "engraveState \<Rightarrow> action list" where
  "teardown e = (if cancel e then [CloseCancel] else []) @
                (if errs e then [AwaitErrs 5000000000] else [])"

definition close :: "EngraveScreen \<Rightarrow> EngraveScreen \<times> action list" where
  "close s = (s\<lparr>engrave := engraveState0\<rparr>, teardown (engrave s))"

text \<open>
  What a goroutine gets done: the actions after \<^verbatim>\<open>mjolnir.Engrave\<close> run only if that
  call returns (\<open>returns\<close>), which, once the cancel channel is closed, is the worker
  acknowledging the cancellation.
\<close>

fun executed :: "bool \<Rightarrow> action list \<Rightarrow> action list" where
  "executed returns [] = []"
| "executed returns (RunEngrave d side dry # as) =
     RunEngrave d side dry # (if returns then executed returns as else [])"
| "executed returns (a # as) = a # executed returns as"

definition device_closed :: "bool \<Rightarrow> nat \<Rightarrow> action list list \<Rightarrow> bool" where
  "device_closed returns d gs = (\<exists>g\<in>set gs. CloseDev (Some d) \<in> set (executed returns g))"

text \<open>
  The two run-time panics of the engrave screen: an index outside \<^verbatim>\<open>s.instructions\<close> and an
  index outside \<^verbatim>\<open>s.plate.Sides\<close>.
\<close>

datatype panic = InstructionIndex | SideIndex

definition index :: "'a list \<Rightarrow> int \<Rightarrow> 'a option" where
  "index xs i = (if 0 \<le> i \<and> i < int (length xs) then Some (xs ! nat i) else None)"

text \<open>
  During one call of \<^verbatim>\<open>Layout\<close> the platform answers \<^verbatim>\<open>Now\<close> with \<open>Now pl\<close> and
  \<^verbatim>\<open>Engraver\<close> with \<open>Engraver pl\<close>: a device handle, or \<open>None\<close> for an error.
\<close>

record Platform =
  Now :: time
  Engraver :: "nat option"

definition connErrorScreen :: ErrorScreen where
  "connErrorScreen = \<lparr>Title = ''Connection Error'',
                       Body = ''Failed to establish a connection to the engraver.''\<rparr>"

definition connLostScreen :: ErrorScreen where
  "connLostScreen = \<lparr>Title = ''Connection Error'',
                      Body = ''Connection to the engraver failed.''\<rparr>"

text \<open>The first part of \<^verbatim>\<open>moveStep\<close>: the connect instruction either returns early or goes on.\<close>

datatype connect_result = Stay EngraveScreen | Advance EngraveScreen

definition moveStep_connect :: "Platform \<Rightarrow> Instruction \<Rightarrow> EngraveScreen \<Rightarrow> connect_result" where
  "moveStep_connect pl ins s =
     (if Type ins = ConnectInstruction then
        (if dev (engrave s) \<noteq> None then Stay s
         else case Engraver pl of
                None \<Rightarrow> Stay (s\<lparr>engrave := engraveState0\<lparr>warning := Some connErrorScreen\<rparr>\<rparr>)
              | Some d \<Rightarrow> Advance (s\<lparr>engrave := engraveState0\<lparr>dev := Some d\<rparr>\<rparr>))
      else Advance s)"

text \<open>
  \<^verbatim>\<open>moveStep\<close> returns its boolean, the screen and the goroutines it started; an index
  out of range is the panic of the Go runtime.
\<close>

definition moveStep :: "Platform \<Rightarrow> EngraveScreen \<Rightarrow> panic + (bool \<times> EngraveScreen \<times> action list list)" where
  "moveStep pl s =
     (case index (instructions s) (step s) of
        None \<Rightarrow> Inl InstructionIndex
      | Some ins \<Rightarrow>
         (case moveStep_connect pl ins s of
            Stay s' \<Rightarrow> Inr (False, s', [])
          | Advance s1 \<Rightarrow>
              let s2 = s1\<lparr>step := step s1 + 1\<rparr> in
              if step s2 = int (length (instructions s2))
              then Inr (True, fst (close s2), [snd (close s2)])
              else
                (case index (instructions s2) (step s2) of
                   None \<Rightarrow> Inl InstructionIndex
                 | Some ins2 \<Rightarrow>
                     if Type ins2 = EngraveInstruction then
                       (if Side ins2 < plate_sides s2 then
                          Inr (False,
                               s2\<lparr>engrave := (engrave s2)\<lparr>cancel := True, errs := True, progress := True\<rparr>\<rparr>,
                               [[RunEngrave (dev (engrave s2)) (Side ins2) (dryRun_enabled s2),
                                 CloseDev (dev (engrave s2)), SendErr],
                                [FeedProgram (Side ins2)]])
                        else Inl SideIndex)
                     else Inr (False, s2, []))))"

text \<open>
  The first loop of \<^verbatim>\<open>EngraveScreen.Layout\<close>: the non-blocking \<^verbatim>\<open>select\<close> over the
  worker's channels. \<open>inbox\<close> lists the values the \<^verbatim>\<open>select\<close> receives in this call, in
  the order it picks them; a value for a channel that is \<^verbatim>\<open>nil\<close> cannot be received and
  is passed over. The boolean is \<open>True\<close> when \<^verbatim>\<open>Layout\<close> returns \<^verbatim>\<open>true\<close> from this loop.
\<close>

datatype worker_msg = ProgressMsg rat | ErrMsg "string option"

fun Layout_recv :: "worker_msg list \<Rightarrow> EngraveScreen \<times> Context \<Rightarrow> bool \<times> EngraveScreen \<times> Context" where
  "Layout_recv [] (s, ctx) = (False, s, ctx)"
| "Layout_recv (ProgressMsg p # ms) (s, ctx) =
     (if progress (engrave s)
      then Layout_recv ms (s\<lparr>engrave := (engrave s)\<lparr>lastProgress := p\<rparr>\<rparr>, ctx)
      else Layout_recv ms (s, ctx))"
| "Layout_recv (ErrMsg err # ms) (s, ctx) =
     (if \<not> errs (engrave s) then Layout_recv ms (s, ctx)
      else case err of
        Some _ \<Rightarrow>
          Layout_recv ms (s\<lparr>engrave := engraveState0\<lparr>warning := Some connLostScreen, fatal := True\<rparr>\<rparr>, ctx)
      | None \<Rightarrow>
          let s1 = s\<lparr>engrave := engraveState0, step := step s + 1\<rparr>;
              ctx1 = ctx\<lparr>Calibrated := True\<rparr>
          in if step s1 = int (length (instructions s1)) then (True, s1, ctx1)
             else Layout_recv ms (s1, ctx1))"

definition cancelDialog :: ConfirmWarningScreen where
  "cancelDialog = \<lparr>cw_Title = ''Cancel?'',
      cw_Body = ''This will cancel the engraving process'' @ [CHR 0x0A, CHR 0x0A] @ ''Hold button to confirm.'',
      confirm = ConfirmDelay0\<rparr>"

text \<open>
  The second loop of \<^verbatim>\<open>Layout\<close>, one iteration at a time. The state of the loop is the
  screen, the context and the goroutines started so far.
\<close>

type_synonym engrave_world = "EngraveScreen \<times> Context \<times> action list list"

datatype outcome = Continue engrave_world | Break engrave_world | Done engrave_world | Panicked panic

text \<open>The screen's own button map (\<^verbatim>\<open>e, ok := ctx.Next()\<close> and the \<^verbatim>\<open>switch e.Button\<close>).\<close>

definition Layout_event :: "Platform \<Rightarrow> bool \<Rightarrow> Instruction \<Rightarrow> engrave_world \<Rightarrow> outcome" where
  "Layout_event pl canPrev ins w =
     (case w of (s, ctx0, gs) \<Rightarrow>
      case Next ctx0 of
        None \<Rightarrow> Break (s, ctx0, gs)
      | Some (e, ctx) \<Rightarrow>
          if Button e = Button1 then
            (if \<not> Click e then Continue (s, ctx, gs)
             else if canPrev then Continue (s\<lparr>step := step s - 1\<rparr>, ctx, gs)
             else Continue (s\<lparr>es_cancel := Some cancelDialog\<rparr>, ctx, gs))
          else if Button e = Button2 then
            (if Pressed e
             then Continue (s\<lparr>dryRun_timeout := Some (Now pl + confirmDelay)\<rparr>, ctx, gs)
             else Continue (s\<lparr>dryRun_timeout := None\<rparr>, ctx, gs))
          else if Button e = Button3 then
            (if Type ins = ConnectInstruction then
               (if Pressed e
                then Continue (s\<lparr>es_confirm := Start (Now pl) confirmDelay\<rparr>,
                               ctx\<lparr>Buttons := (Buttons ctx)[Button3 := False]\<rparr>, gs)
                else Continue (s\<lparr>es_confirm := ConfirmDelay0\<rparr>, ctx, gs))
             else if \<not> Click e \<or> Type ins = EngraveInstruction then Continue (s, ctx, gs)
             else (case moveStep pl s of
                     Inl p \<Rightarrow> Panicked p
                   | Inr (r, s', g) \<Rightarrow>
                       if r then Done (s', ctx, gs @ g) else Continue (s', ctx, gs @ g)))
          else Continue (s, ctx, gs))"

text \<open>The expired dry-run hold flips the flag (the \<^verbatim>\<open>if !s.dryRun.timeout.IsZero()\<close> block).\<close>

definition Layout_dryRun :: "Platform \<Rightarrow> EngraveScreen \<times> Context \<Rightarrow> EngraveScreen \<times> Context" where
  "Layout_dryRun pl sc =
     (case sc of (s, ctx) \<Rightarrow>
      case dryRun_timeout s of
        None \<Rightarrow> (s, ctx)
      | Some t \<Rightarrow>
          if t - Now pl \<le> 0
          then (s\<lparr>dryRun_timeout := None, dryRun_enabled := \<not> dryRun_enabled s\<rparr>,
                ctx\<lparr>Buttons := (Buttons ctx)[Button2 := False]\<rparr>)
          else (s, ctx))"

definition Layout_iter :: "Platform \<Rightarrow> engrave_world \<Rightarrow> outcome" where
  "Layout_iter pl w =
     (case w of (s, ctx, gs) \<Rightarrow>
      case index (instructions s) (step s) of
        None \<Rightarrow> Panicked InstructionIndex
      | Some ins \<Rightarrow>
          let canPrev = (step s > 0 \<and>
                         Type (instructions s ! nat (step s - 1)) = PrepareInstruction) in
          if Progress (Now pl) (es_confirm s) = 1 then
            (case moveStep pl s of
               Inl p \<Rightarrow> Panicked p
             | Inr (r, s', g) \<Rightarrow> Continue (s'\<lparr>es_confirm := ConfirmDelay0\<rparr>, ctx, gs @ g))
          else
            (case Layout_dryRun pl (s, ctx) of (s1, ctx1) \<Rightarrow>
             case es_cancel s1 of
               Some cw \<Rightarrow>
                 (case ConfirmWarningScreen_Layout (Now pl) cw ctx1 of (result, cw', ctx2) \<Rightarrow>
                  let s2 = s1\<lparr>es_cancel := Some cw'\<rparr> in
                  case result of
                    ConfirmYes \<Rightarrow> Done (fst (close s2), ctx2, gs @ [snd (close s2)])
                  | ConfirmNo \<Rightarrow> Continue (s2\<lparr>es_cancel := None\<rparr>, ctx2, gs)
                  | ConfirmNone \<Rightarrow> Layout_event pl canPrev ins (s2, ctx2, gs))
             | None \<Rightarrow>
                 (case warning (engrave s1) of
                    Some w \<Rightarrow>
                      (case ErrorScreen_Layout ctx1 of (dismissed, ctx2) \<Rightarrow>
                       if dismissed then
                         let s2 = s1\<lparr>engrave := (engrave s1)\<lparr>warning := None\<rparr>\<rparr> in
                         if fatal (engrave s2)
                         then Done (fst (close s2), ctx2, gs @ [snd (close s2)])
                         else Continue (s2, ctx2, gs)
                       else Layout_event pl canPrev ins (s1, ctx2, gs))
                  | None \<Rightarrow> Layout_event pl canPrev ins (s1, ctx1, gs))))"

text \<open>The measure of the loop: queued events, and whether the hold has just completed.\<close>

definition Layout_measure :: "Platform \<times> engrave_world \<Rightarrow> nat" where
  "Layout_measure x =
     (case x of (pl, s, ctx, gs) \<Rightarrow>
        2 * length (events ctx) + (if Progress (Now pl) (es_confirm s) = 1 then 1 else 0))"
section \<open>Floating-point rounding\<close>

text \<open>
  Facts about \<^const>\<open>rne\<close>, \<^const>\<open>ilog2\<close> and \<^const>\<open>fl\<close>: the exponent is the right one, a
  rounded value differs from the exact one by at most half a unit in the last place,
  small integers are exact, and rounding does not cross 1.
\<close>

lemma rne_error: "\<bar>of_int (rne q) - q\<bar> \<le> 1 / 2"
proof -
  have "of_int \<lfloor>q\<rfloor> \<le> q" "q < of_int \<lfloor>q\<rfloor> + 1" by linarith+
  then show ?thesis by (auto simp: rne_def Let_def)
qed

lemma rne_of_int [simp]: "rne (of_int n) = n"
  by (simp add: rne_def)

lemma rne_le: "q \<le> of_int n \<Longrightarrow> rne q \<le> n"
proof -
  assume a: "q \<le> of_int n"
  have f: "of_int \<lfloor>q\<rfloor> \<le> q" "q < of_int \<lfloor>q\<rfloor> + 1" by linarith+
  show ?thesis
  proof (cases "q = of_int \<lfloor>q\<rfloor>")
    case True
    then have "rne q = \<lfloor>q\<rfloor>" by (simp add: rne_def)
    moreover have "\<lfloor>q\<rfloor> \<le> n" using a by (simp add: floor_le_iff)
    ultimately show ?thesis by simp
  next
    case False
    with f a have "of_int \<lfloor>q\<rfloor> < (of_int n :: rat)" by linarith
    then have "\<lfloor>q\<rfloor> < n" by simp
    moreover have "rne q \<le> \<lfloor>q\<rfloor> + 1" by (simp add: rne_def Let_def)
    ultimately show ?thesis by linarith
  qed
qed

lemma rne_ge: "of_int n \<le> q \<Longrightarrow> n \<le> rne q"
proof -
  assume "of_int n \<le> q"
  then have "n \<le> \<lfloor>q\<rfloor>" by (simp add: le_floor_iff)
  moreover have "\<lfloor>q\<rfloor> \<le> rne q" by (simp add: rne_def Let_def)
  ultimately show ?thesis by linarith
qed

lemma power_int_2_pos [simp]: "0 < power_int (2::rat) k"
  by (simp add: power_int_def)

lemma power_int_2_less_cancel: "power_int (2::rat) a < power_int 2 b \<Longrightarrow> a < b"
proof (rule ccontr)
  assume l: "power_int (2::rat) a < power_int 2 b" and "\<not> a < b"
  then have "b \<le> a" by simp
  then have "power_int (2::rat) b \<le> power_int 2 a" by (intro power_int_increasing) simp_all
  with l show False by simp
qed

lemma power_int_2_neg: "0 \<le> n \<Longrightarrow> power_int (2::rat) (- n) = 1 / 2 ^ nat n"
  by (simp add: power_int_minus power_int_def inverse_eq_divide power_one_over)

lemma ilog2_bounds:
  assumes "0 < x"
  shows "power_int 2 (ilog2 x) \<le> x" and "x < power_int 2 (ilog2 x + 1)"
proof -
  have "power_int 2 (ilog2 x) \<le> x \<and> x < power_int 2 (ilog2 x + 1)"
  proof (cases "1 \<le> x")
    case True
    let ?m = "\<lfloor>x\<rfloor>"
    have m: "0 < ?m" using True by simp
    from bitlen_bounds[OF m] have b: "2 ^ nat (bitlen ?m - 1) \<le> ?m" "?m < 2 ^ nat (bitlen ?m)"
      by simp_all
    have b1: "1 \<le> bitlen ?m" using m bitlen_eq_zero_iff[of ?m] bitlen_nonneg[of ?m]
      by (cases "bitlen ?m = 0") auto
    have i: "ilog2 x = bitlen ?m - 1" using True by (simp add: ilog2_def)
    have "(of_int (2 ^ nat (bitlen ?m - 1)) :: rat) \<le> of_int ?m" using b(1) by (simp only: of_int_le_iff)
    also have "\<dots> \<le> x" by simp
    finally have lo: "power_int 2 (ilog2 x) \<le> x" using b1 by (simp add: i power_int_def)
    have "?m + 1 \<le> 2 ^ nat (bitlen ?m)" using b(2) by simp
    then have "(of_int (?m + 1) :: rat) \<le> of_int (2 ^ nat (bitlen ?m))" by (simp only: of_int_le_iff)
    moreover have "x < of_int (?m + 1)" by simp linarith
    ultimately have "x < of_int (2 ^ nat (bitlen ?m))" by linarith
    then have hi: "x < power_int 2 (ilog2 x + 1)" using b1 by (simp add: i power_int_def)
    from lo hi show ?thesis ..
  next
    case False
    let ?y = "1 / x"
    let ?n = "\<lceil>?y\<rceil>"
    have y: "1 < ?y" using False assms by simp
    then have n: "0 < ?n - 1" by (simp add: less_ceiling_iff)
    let ?j = "bitlen (?n - 1)"
    from bitlen_bounds[OF n] have b: "2 ^ nat (?j - 1) \<le> ?n - 1" "?n - 1 < 2 ^ nat ?j"
      by simp_all
    have j1: "1 \<le> ?j" using n bitlen_eq_zero_iff[of "?n - 1"] bitlen_nonneg[of "?n - 1"]
      by (cases "?j = 0") auto
    have i: "ilog2 x = - ?j" using False by (simp add: ilog2_def)
    have "?n \<le> 2 ^ nat ?j" using b(2) by simp
    then have "(of_int ?n :: rat) \<le> of_int (2 ^ nat ?j)" by (simp only: of_int_le_iff)
    moreover have "?y \<le> of_int ?n" by (rule le_of_int_ceiling)
    ultimately have "?y \<le> of_int (2 ^ nat ?j)" by (rule order_trans[rotated])
    then have "?y \<le> 2 ^ nat ?j" by simp
    then have "1 \<le> x * 2 ^ nat ?j" using assms by (simp add: field_simps)
    then have lo: "power_int 2 (ilog2 x) \<le> x"
      using j1 by (simp add: i power_int_2_neg field_simps)
    have "(of_int (2 ^ nat (?j - 1)) :: rat) \<le> of_int (?n - 1)" using b(1) by (simp only: of_int_le_iff)
    moreover have "of_int (?n - 1) < ?y" by simp linarith
    ultimately have "(of_int (2 ^ nat (?j - 1)) :: rat) < ?y" by (rule le_less_trans)
    then have "2 ^ nat (?j - 1) < ?y" by simp
    then have "x * 2 ^ nat (?j - 1) < 1" using assms by (simp add: field_simps)
    then have "x < 1 / 2 ^ nat (?j - 1)" using assms by (simp add: field_simps)
    moreover have "power_int (2::rat) (- (?j - 1)) = 1 / 2 ^ nat (?j - 1)"
      using j1 by (intro power_int_2_neg) simp
    ultimately have "x < power_int 2 (- (?j - 1))" by (simp only:)
    moreover have "ilog2 x + 1 = - (?j - 1)" by (simp add: i)
    ultimately have hi: "x < power_int 2 (ilog2 x + 1)" by simp
    from lo hi show ?thesis ..
  qed
  then show "power_int 2 (ilog2 x) \<le> x" and "x < power_int 2 (ilog2 x + 1)" by simp_all
qed

lemma ilog2_unique:
  assumes "0 < x" "power_int 2 k \<le> x" "x < power_int 2 (k + 1)"
  shows "ilog2 x = k"
proof -
  note b = ilog2_bounds[OF assms(1)]
  from b(1) assms(3) have "power_int (2::rat) (ilog2 x) < power_int 2 (k + 1)" by simp
  then have 1: "ilog2 x < k + 1" by (rule power_int_2_less_cancel)
  from b(2) assms(2) have "power_int (2::rat) k < power_int 2 (ilog2 x + 1)" by simp
  then have 2: "k < ilog2 x + 1" by (rule power_int_2_less_cancel)
  from 1 2 show ?thesis by simp
qed

lemma rne_gt_half: "of_int n - 1 / 2 < q \<Longrightarrow> n \<le> rne q"
proof -
  assume a: "of_int n - 1 / 2 < q"
  from rne_error[of q] have "q - 1 / 2 \<le> of_int (rne q)" by linarith
  with a have "(of_int n :: rat) - 1 < of_int (rne q)" by linarith
  then have "(of_int (n - 1) :: rat) < of_int (rne q)" by simp
  then have "n - 1 < rne q" by (simp only: of_int_less_iff)
  then show ?thesis by simp
qed

lemma power_int_2_nonpos: "e \<le> 0 \<Longrightarrow> power_int (2::rat) e = 1 / 2 ^ nat (- e)"
  using power_int_2_neg[of "- e"] by simp

lemma fl_0 [simp]: "fl p 0 = 0"
  by (simp add: fl_def)

lemma fl_pos:
  "0 < x \<Longrightarrow>
   fl p x = of_int (rne (x / power_int 2 (ilog2 x - int p + 1))) * power_int 2 (ilog2 x - int p + 1)"
  by (simp add: fl_def Let_def)

lemma fl_nonneg: "0 \<le> x \<Longrightarrow> 0 \<le> fl p x"
proof (cases "x = 0")
  case False
  assume "0 \<le> x"
  with False have x: "0 < x" by simp
  have "(of_int 0 :: rat) \<le> x / power_int 2 (ilog2 x - int p + 1)" using x by simp
  then have "0 \<le> rne (x / power_int 2 (ilog2 x - int p + 1))" by (rule rne_ge)
  then show ?thesis by (simp add: fl_pos[OF x])
qed simp

lemma fl_error:
  assumes x: "0 < x"
  shows "\<bar>fl p x - x\<bar> \<le> power_int 2 (ilog2 x - int p)"
proof -
  let ?e = "ilog2 x - int p + 1"
  let ?q = "x / power_int 2 ?e"
  have "fl p x - x = (of_int (rne ?q) - ?q) * power_int 2 ?e"
    by (simp add: fl_pos[OF x] algebra_simps)
  then have "\<bar>fl p x - x\<bar> = \<bar>of_int (rne ?q) - ?q\<bar> * power_int 2 ?e"
    by (simp add: abs_mult)
  also have "\<dots> \<le> 1 / 2 * power_int 2 ?e"
    by (intro mult_right_mono rne_error) simp
  also have "\<dots> = power_int 2 (ilog2 x - int p)"
    using power_int_add[of "2::rat" "ilog2 x - int p" 1] by simp
  finally show ?thesis .
qed

lemma fl_rel:
  assumes "0 \<le> x"
  shows "\<bar>fl p x - x\<bar> \<le> x / 2 ^ p"
proof (cases "x = 0")
  case False
  with assms have x: "0 < x" by simp
  have "power_int (2::rat) (ilog2 x - int p) = power_int 2 (ilog2 x) / 2 ^ p"
    by (simp add: power_int_diff)
  also have "\<dots> \<le> x / 2 ^ p" using ilog2_bounds(1)[OF x] by (simp add: divide_right_mono)
  finally show ?thesis using fl_error[OF x, of p] by simp
qed simp

lemma fl_lower: "0 \<le> x \<Longrightarrow> x * (1 - 1 / 2 ^ p) \<le> fl p x"
  using fl_rel[of x p] by (simp add: algebra_simps abs_le_iff)

lemma fl_upper: "0 \<le> x \<Longrightarrow> fl p x \<le> x * (1 + 1 / 2 ^ p)"
  using fl_rel[of x p] by (simp add: algebra_simps abs_le_iff)

lemma ilog2_le_0: "0 < x \<Longrightarrow> x \<le> 1 \<Longrightarrow> ilog2 x \<le> 0"
proof -
  assume x: "0 < x" "x \<le> 1"
  from ilog2_bounds(1)[OF x(1)] x(2) have "power_int (2::rat) (ilog2 x) < power_int 2 1" by simp
  then have "ilog2 x < 1" by (rule power_int_2_less_cancel)
  then show ?thesis by simp
qed

lemma ilog2_less_0: "0 < x \<Longrightarrow> x < 1 \<Longrightarrow> ilog2 x < 0"
proof -
  assume x: "0 < x" "x < 1"
  from ilog2_bounds(1)[OF x(1)] x(2) have "power_int (2::rat) (ilog2 x) < power_int 2 0" by simp
  then show ?thesis by (rule power_int_2_less_cancel)
qed

lemma fl_le_1:
  assumes p: "0 < p" and x: "0 \<le> x" "x \<le> 1"
  shows "fl p x \<le> 1"
proof (cases "x = 0")
  case False
  with x have x0: "0 < x" by simp
  let ?e = "ilog2 x - int p + 1"
  have e: "?e \<le> 0" using ilog2_le_0[OF x0 x(2)] p by simp
  let ?k = "nat (- ?e)"
  have pw: "power_int (2::rat) ?e = 1 / 2 ^ ?k"
    using e by (rule power_int_2_nonpos)
  have "x / power_int 2 ?e = x * 2 ^ ?k" by (simp add: pw)
  also have "\<dots> \<le> 2 ^ ?k" using x(2) by simp
  also have "\<dots> = of_int (2 ^ ?k)" by simp
  finally have "rne (x / power_int 2 ?e) \<le> 2 ^ ?k" by (rule rne_le)
  then have "(of_int (rne (x / power_int 2 ?e)) :: rat) \<le> of_int (2 ^ ?k)"
    by (simp only: of_int_le_iff)
  then have "of_int (rne (x / power_int 2 ?e)) * (1 / 2 ^ ?k) \<le> (1::rat)"
    by (simp add: field_simps)
  then have "of_int (rne (x / power_int 2 ?e)) * power_int 2 ?e \<le> (1::rat)"
    by (simp only: pw)
  then show ?thesis by (simp only: fl_pos[OF x0])
qed simp

lemma fl_of_int:
  assumes n: "0 \<le> n" "n < 2 ^ p"
  shows "fl p (of_int n) = of_int n"
proof (cases "n = 0")
  case False
  with n have x0: "0 < (of_int n :: rat)" by simp
  let ?x = "of_int n :: rat"
  let ?e = "ilog2 ?x - int p + 1"
  have "?x < of_int (2 ^ p)" using n(2) by (simp only: of_int_less_iff)
  then have "?x < power_int 2 (int p)" by simp
  with ilog2_bounds(1)[OF x0] have "power_int (2::rat) (ilog2 ?x) < power_int 2 (int p)"
    by (rule le_less_trans)
  then have "ilog2 ?x < int p" by (rule power_int_2_less_cancel)
  then have e: "?e \<le> 0" by simp
  let ?k = "nat (- ?e)"
  have pw: "power_int (2::rat) ?e = 1 / 2 ^ ?k"
    using e by (rule power_int_2_nonpos)
  have "?x / power_int 2 ?e = of_int (n * 2 ^ ?k)" by (simp add: pw)
  then have "rne (?x / power_int 2 ?e) = n * 2 ^ ?k" by (simp only: rne_of_int)
  then have "of_int (rne (?x / power_int 2 ?e)) * power_int 2 ?e = ?x"
    unfolding pw by simp
  then show ?thesis by (simp only: fl_pos[OF x0])
qed simp

lemma fl_1: "0 < p \<Longrightarrow> fl p 1 = 1"
  using fl_of_int[of 1 p] by simp

lemma fl_less_1:
  assumes x: "0 \<le> x" "x < 1 - 1 / 2 ^ (p + 1)"
  shows "fl p x < 1"
proof (cases "x = 0")
  case False
  with x have x0: "0 < x" by simp
  have "(0::rat) < 1 / 2 ^ (p + 1)" by simp
  with x(2) have x1: "x < 1" by linarith
  from ilog2_less_0[OF x0 x1] have "ilog2 x - int p \<le> - (int p + 1)" by simp
  then have "power_int (2::rat) (ilog2 x - int p) \<le> power_int 2 (- (int p + 1))"
    by (intro power_int_increasing) simp_all
  also have "\<dots> = 1 / 2 ^ (p + 1)"
    using power_int_2_neg[of "int p + 1"] by (simp add: nat_add_distrib)
  finally have "\<bar>fl p x - x\<bar> \<le> 1 / 2 ^ (p + 1)" using fl_error[OF x0, of p] by simp
  with x(2) show ?thesis by linarith
qed simp

lemma fl_eq_1:
  assumes p: "0 < p" and x: "1 - 1 / 2 ^ (p + 1) < x" "x \<le> 1"
  shows "fl p x = 1"
proof (cases "x = 1")
  case False
  with x have x1: "x < 1" by simp
  have "(1::rat) / 2 ^ (p + 1) \<le> 1 / 2 ^ 1"
    by (intro divide_left_mono power_increasing) simp_all
  then have "(1::rat) / 2 ^ (p + 1) \<le> 1 / 2" by (simp only: power_one_right)
  with x(1) have h: "1 / 2 < x" by linarith
  then have x0: "0 < x" by simp
  have "ilog2 x = - 1"
    using h x1 by (intro ilog2_unique[OF x0]) (simp_all add: power_int_minus)
  then have e: "ilog2 x - int p + 1 = - int p" by simp
  have pw: "power_int (2::rat) (- int p) = 1 / 2 ^ p"
    using power_int_2_neg[of "int p"] by simp
  let ?q = "x / power_int 2 (- int p)"
  have q: "?q = x * 2 ^ p" by (simp add: pw)
  have "?q \<le> of_int (2 ^ p)" using x(2) by (simp add: q)
  then have le: "rne ?q \<le> 2 ^ p" by (rule rne_le)
  have "(1 - 1 / 2 ^ (p + 1)) * 2 ^ p < x * 2 ^ p" using x(1) by simp
  then have "of_int (2 ^ p) - 1 / 2 < ?q" by (simp add: q algebra_simps)
  then have "2 ^ p \<le> rne ?q" by (rule rne_gt_half)
  with le have "rne ?q = 2 ^ p" by simp
  then show ?thesis by (simp add: fl_pos[OF x0] e pw)
qed (simp add: fl_1 p)

section \<open>Progress of the confirm-hold timer\<close>

lemma Seconds_confirmDelay: "Seconds confirmDelay = 1"
  by (simp add: Seconds_def confirmDelay_def Second_def quo_def rem_def float64_def fl_1)

lemma Seconds_below_Second:
  assumes d: "0 < d" "d < 1000000000"
  shows "Seconds d = float64 (float64 (of_int d / 1000000000))"
proof -
  have q: "quo d Second = 0" "rem d Second = d" using d by (simp_all add: quo_def rem_def Second_def)
  have "d < 2 ^ 53" using d(2) by simp
  with d(1) have "fl 53 (of_int d) = of_int d" by (intro fl_of_int) simp_all
  then show ?thesis by (simp add: Seconds_def q float64_def)
qed

text \<open>
  The value of \<^verbatim>\<open>Progress\<close> when \<open>d\<close> nanoseconds remain, and the exact quotient it
  approximates.
\<close>

definition remaining :: "int \<Rightarrow> rat" where
  "remaining d = float32 (float64 (Seconds d / Seconds confirmDelay))"

lemma Progress_Some:
  "timeout c = Some t \<Longrightarrow> 0 < t - now \<Longrightarrow> Progress now c = float32 (1 - remaining (t - now))"
  by (simp add: Progress_def remaining_def Let_def)

lemma remaining_range:
  assumes d: "0 < d" "d \<le> 1000000000"
  shows "0 \<le> remaining d" and "remaining d \<le> 1"
proof -
  have "0 \<le> remaining d \<and> remaining d \<le> 1"
  proof (cases "d = 1000000000")
    case True
    then show ?thesis
      using Seconds_confirmDelay by (simp add: remaining_def confirmDelay_def float64_def float32_def fl_1)
  next
    case False
    with d have d': "d < 1000000000" by simp
    let ?t = "of_int d / 1000000000 :: rat"
    have t: "0 \<le> ?t" "?t \<le> 1" using d by simp_all
    have a: "0 \<le> fl 53 ?t" "fl 53 ?t \<le> 1" using t by (simp_all add: fl_nonneg fl_le_1)
    have b: "0 \<le> fl 53 (fl 53 ?t)" "fl 53 (fl 53 ?t) \<le> 1" using a by (simp_all add: fl_nonneg fl_le_1)
    have c: "0 \<le> fl 53 (fl 53 (fl 53 ?t))" "fl 53 (fl 53 (fl 53 ?t)) \<le> 1"
      using b by (simp_all add: fl_nonneg fl_le_1)
    have "0 \<le> fl 24 (fl 53 (fl 53 (fl 53 ?t)))" "fl 24 (fl 53 (fl 53 (fl 53 ?t))) \<le> 1"
      using c by (simp_all add: fl_nonneg fl_le_1)
    then show ?thesis
      by (simp add: remaining_def Seconds_below_Second[OF d(1) d'] Seconds_confirmDelay
          float64_def float32_def)
  qed
  then show "0 \<le> remaining d" and "remaining d \<le> 1" by simp_all
qed

lemma remaining_bounds:
  assumes d: "0 < d" "d \<le> 1000000000"
  shows "of_int d / 1000000000 * (1 - 1 / 2 ^ 23) \<le> remaining d"
    and "remaining d \<le> of_int d / 1000000000 * (1 + 1 / 2 ^ 23)"
proof -
  let ?t = "of_int d / 1000000000 :: rat"
  have "?t * (1 - 1 / 2 ^ 23) \<le> remaining d \<and> remaining d \<le> ?t * (1 + 1 / 2 ^ 23)"
  proof (cases "d = 1000000000")
    case True
    then show ?thesis
      using Seconds_confirmDelay by (simp add: remaining_def confirmDelay_def float64_def float32_def fl_1)
  next
    case False
    with d have d': "d < 1000000000" by simp
    have t: "0 \<le> ?t" using d by simp
    let ?a = "fl 53 ?t"
    let ?b = "fl 53 ?a"
    let ?c = "fl 53 ?b"
    let ?y = "fl 24 ?c"
    have a0: "0 \<le> ?a" using t by (rule fl_nonneg)
    have b0: "0 \<le> ?b" using a0 by (rule fl_nonneg)
    have c0: "0 \<le> ?c" using b0 by (rule fl_nonneg)
    let ?u = "1 + 1 / 2 ^ 53 :: rat"
    let ?l = "1 - 1 / 2 ^ 53 :: rat"
    have au: "?a \<le> ?t * ?u" using t by (rule fl_upper)
    have "?b \<le> ?a * ?u" using a0 by (rule fl_upper)
    also have "\<dots> \<le> ?t * ?u * ?u" using au by (intro mult_right_mono) simp_all
    finally have bu: "?b \<le> ?t * ?u * ?u" .
    have "?c \<le> ?b * ?u" using b0 by (rule fl_upper)
    also have "\<dots> \<le> ?t * ?u * ?u * ?u" using bu by (intro mult_right_mono) simp_all
    finally have cu: "?c \<le> ?t * ?u * ?u * ?u" .
    have "?y \<le> ?c * (1 + 1 / 2 ^ 24)" using c0 by (rule fl_upper)
    also have "\<dots> \<le> ?t * ?u * ?u * ?u * (1 + 1 / 2 ^ 24)" using cu by (intro mult_right_mono) simp_all
    also have "\<dots> = ?t * (?u * ?u * ?u * (1 + 1 / 2 ^ 24))" by (simp only: mult.assoc)
    also have "\<dots> \<le> ?t * (1 + 1 / 2 ^ 23)" using t by (intro mult_left_mono) simp_all
    finally have yu: "?y \<le> ?t * (1 + 1 / 2 ^ 23)" .
    have al: "?t * ?l \<le> ?a" using t by (rule fl_lower)
    have "?t * ?l * ?l \<le> ?a * ?l" using al by (intro mult_right_mono) simp_all
    also have "\<dots> \<le> ?b" using a0 by (rule fl_lower)
    finally have bl: "?t * ?l * ?l \<le> ?b" .
    have "?t * ?l * ?l * ?l \<le> ?b * ?l" using bl by (intro mult_right_mono) simp_all
    also have "\<dots> \<le> ?c" using b0 by (rule fl_lower)
    finally have cl: "?t * ?l * ?l * ?l \<le> ?c" .
    have "?t * (1 - 1 / 2 ^ 23) \<le> ?t * (?l * ?l * ?l * (1 - 1 / 2 ^ 24))"
      using t by (intro mult_left_mono) simp_all
    also have "\<dots> = ?t * ?l * ?l * ?l * (1 - 1 / 2 ^ 24)" by (simp only: mult.assoc)
    also have "\<dots> \<le> ?c * (1 - 1 / 2 ^ 24)" using cl by (intro mult_right_mono) simp_all
    also have "\<dots> \<le> ?y" using c0 by (rule fl_lower)
    finally have yl: "?t * (1 - 1 / 2 ^ 23) \<le> ?y" .
    have "remaining d = ?y"
      by (simp add: remaining_def Seconds_below_Second[OF d(1) d'] Seconds_confirmDelay
          float64_def float32_def)
    with yl yu show ?thesis by simp
  qed
  then show "?t * (1 - 1 / 2 ^ 23) \<le> remaining d" and "remaining d \<le> ?t * (1 + 1 / 2 ^ 23)"
    by simp_all
qed

lemma Progress_range:
  assumes d: "0 < d" "d \<le> 1000000000"
  shows "0 \<le> float32 (1 - remaining d)" and "float32 (1 - remaining d) \<le> 1"
  using remaining_range[OF d] by (simp_all add: float32_def fl_nonneg fl_le_1)

lemma Progress_early_1:
  assumes d: "0 < d" "d \<le> 29"
  shows "float32 (1 - remaining d) = 1"
proof -
  from d have d': "d \<le> 1000000000" by simp
  have "(of_int d :: rat) \<le> 29" using d(2) by simp
  then have "of_int d / 1000000000 * (1 + 1 / 2 ^ 23) \<le> 29 / 1000000000 * (1 + 1 / 2 ^ 23 :: rat)"
    by (intro mult_right_mono divide_right_mono) simp_all
  also have "\<dots> < 1 / 2 ^ (24 + 1)" by simp
  finally have "remaining d < 1 / 2 ^ (24 + 1)"
    using remaining_bounds(2)[OF d(1) d'] by simp
  then have "1 - 1 / 2 ^ (24 + 1) < 1 - remaining d" by simp
  moreover have "1 - remaining d \<le> 1" using remaining_range(1)[OF d(1) d'] by simp
  ultimately show ?thesis unfolding float32_def by (intro fl_eq_1) simp_all
qed

lemma Progress_below_1:
  assumes d: "30 \<le> d" "d \<le> 1000000000"
  shows "float32 (1 - remaining d) < 1"
proof -
  from d have d0: "0 < d" by simp
  have "(30 :: rat) \<le> of_int d" using d(1) by simp
  then have "30 / 1000000000 * (1 - 1 / 2 ^ 23 :: rat) \<le> of_int d / 1000000000 * (1 - 1 / 2 ^ 23)"
    by (intro mult_right_mono divide_right_mono) simp_all
  moreover have "(1 :: rat) / 2 ^ (24 + 1) < 30 / 1000000000 * (1 - 1 / 2 ^ 23)" by simp
  ultimately have "1 / 2 ^ (24 + 1) < remaining d"
    using remaining_bounds(1)[OF d0 d(2)] by simp
  then have "1 - remaining d < 1 - 1 / 2 ^ (24 + 1)" by simp
  moreover have "0 \<le> 1 - remaining d" using remaining_range(2)[OF d0 d(2)] by simp
  ultimately show ?thesis unfolding float32_def by (intro fl_less_1) simp_all
qed

lemma Progress_error:
  assumes d: "0 < d" "d \<le> 1000000000"
  shows "\<bar>float32 (1 - remaining d) - (1 - of_int d / 1000000000)\<bar> \<le> 1 / 2 ^ 22"
proof -
  let ?t = "of_int d / 1000000000 :: rat"
  let ?y = "remaining d"
  have t: "0 \<le> ?t" "?t \<le> 1" using d by simp_all
  note r = remaining_range[OF d]
  note b = remaining_bounds[OF d]
  have l: "?t - ?t * (1 / 2 ^ 23) \<le> ?y" using b(1) by (simp only: right_diff_distrib mult_1_right)
  have u: "?y \<le> ?t + ?t * (1 / 2 ^ 23)" using b(2) by (simp only: distrib_left mult_1_right)
  from l u have "\<bar>?y - ?t\<bar> \<le> ?t * (1 / 2 ^ 23)" by linarith
  also have "\<dots> \<le> 1 * (1 / 2 ^ 23)" using t(2) by (intro mult_right_mono) simp_all
  finally have 1: "\<bar>?y - ?t\<bar> \<le> 1 / 2 ^ 23" by simp
  have "\<bar>fl 24 (1 - ?y) - (1 - ?y)\<bar> \<le> (1 - ?y) / 2 ^ 24" using r(2) by (intro fl_rel) simp
  also have "\<dots> \<le> 1 / 2 ^ 24" using r(1) by (intro divide_right_mono) simp_all
  finally have 2: "\<bar>float32 (1 - ?y) - (1 - ?y)\<bar> \<le> 1 / 2 ^ 24" by (simp add: float32_def)
  have 3: "(1 :: rat) / 2 ^ 23 + 1 / 2 ^ 24 \<le> 1 / 2 ^ 22" by simp
  from 1 2 3 show ?thesis by linarith
qed





text \<open>
  Every iteration that goes round the loop again takes an event off the queue or clears
  the completed hold, so the loop ends.
\<close>

lemma cw_loop_length:
  "cw_loop now c b evs = (r, c', b', evs') \<Longrightarrow>
   length evs' \<le> length evs \<and> (r = ConfirmNo \<longrightarrow> length evs' < length evs)"
  by (induction now c b evs rule: cw_loop.induct) (auto split: if_splits)

lemma es_loop_length:
  "es_loop evs = (d, evs') \<Longrightarrow> length evs' \<le> length evs \<and> (d \<longrightarrow> length evs' < length evs)"
  by (induction evs arbitrary: d evs') (auto split: if_splits)

lemma Progress_ConfirmDelay0 [simp]: "Progress now ConfirmDelay0 = 0"
  by (simp add: Progress_def ConfirmDelay0_def)

lemma confirmDelay_pos: "0 < confirmDelay"
  by (simp add: confirmDelay_def)

lemma Progress_Start_now [simp]: "Progress now (Start now confirmDelay) = 0"
  using confirmDelay_pos
  by (simp add: Progress_def Start_def Seconds_confirmDelay float32_def float64_def fl_1)

lemma engraveState0_sel [simp]:
  "dev engraveState0 = None" "\<not> errs engraveState0" "\<not> cancel engraveState0"
  "\<not> progress engraveState0" "warning engraveState0 = None" "\<not> fatal engraveState0"
  by (simp_all add: engraveState0_def)

lemma Next_Some: "Next ctx = Some (e, ctx') \<Longrightarrow> length (events ctx') < length (events ctx)"
  by (auto simp: Next_def split: list.splits)

lemma Layout_event_Continue:
  "Layout_event pl cp ins (s, ctx, gs) = Continue (s', ctx', gs') \<Longrightarrow>
   length (events ctx') < length (events ctx)"
  by (auto simp: Layout_event_def Let_def split: option.splits if_splits sum.splits prod.splits
       dest!: Next_Some)

lemma Layout_dryRun_events:
  "Layout_dryRun pl (s, ctx) = (s1, ctx1) \<Longrightarrow> events ctx1 = events ctx \<and> es_confirm s1 = es_confirm s"
  by (auto simp: Layout_dryRun_def split: option.splits if_splits)

lemma CW_Layout_length:
  "ConfirmWarningScreen_Layout now cw ctx = (r, cw', ctx') \<Longrightarrow>
   length (events ctx') \<le> length (events ctx) \<and>
   (r = ConfirmNo \<longrightarrow> length (events ctx') < length (events ctx))"
  by (auto simp: ConfirmWarningScreen_Layout_def split: prod.splits dest: cw_loop_length)

lemma ES_Layout_length:
  "ErrorScreen_Layout ctx = (d, ctx') \<Longrightarrow>
   length (events ctx') \<le> length (events ctx) \<and> (d \<longrightarrow> length (events ctx') < length (events ctx))"
  by (auto simp: ErrorScreen_Layout_def split: prod.splits dest: es_loop_length)

lemma Layout_iter_decreases:
  assumes "Layout_iter pl w = Continue w'"
  shows "Layout_measure (pl, w') < Layout_measure (pl, w)"
proof -
  obtain s ctx gs where w: "w = (s, ctx, gs)" by (cases w)
  obtain s' ctx' gs' where w': "w' = (s', ctx', gs')" by (cases w')
  obtain ins where ins: "index (instructions s) (step s) = Some ins"
    using assms w by (auto simp: Layout_iter_def split: option.splits)
  show ?thesis
  proof (cases "Progress (Now pl) (es_confirm s) = 1")
    case True
    then show ?thesis using assms w w' ins
      by (auto simp: Layout_iter_def Layout_measure_def Let_def split: sum.splits prod.splits)
  next
    case False
    obtain s1 ctx1 where d: "Layout_dryRun pl (s, ctx) = (s1, ctx1)"
      by (cases "Layout_dryRun pl (s, ctx)")
    note de = Layout_dryRun_events[OF d]
    have "length (events ctx') < length (events ctx)"
    proof (cases "es_cancel s1")
      case (Some cw)
      obtain r cw' ctx2 where c: "ConfirmWarningScreen_Layout (Now pl) cw ctx1 = (r, cw', ctx2)"
        by (cases "ConfirmWarningScreen_Layout (Now pl) cw ctx1")
      note ce = CW_Layout_length[OF c]
      show ?thesis using assms w w' ins False d Some c ce de
        by (cases r) (auto simp: Layout_iter_def Let_def dest: Layout_event_Continue)
    next
      case None
      show ?thesis
      proof (cases "warning (engrave s1)")
        case N2: None
        then show ?thesis using assms w w' ins False d None de
          by (auto simp: Layout_iter_def Let_def dest: Layout_event_Continue)
      next
        case (Some wn)
        obtain dis ctx2 where e: "ErrorScreen_Layout ctx1 = (dis, ctx2)"
          by (cases "ErrorScreen_Layout ctx1")
        note ee = ES_Layout_length[OF e]
        show ?thesis using assms w w' ins False d None Some e ee de
          by (auto simp: Layout_iter_def Let_def split: if_splits dest: Layout_event_Continue)
      qed
    qed
    then show ?thesis using w w' False by (simp add: Layout_measure_def)
  qed
qed

function Layout_loop :: "Platform \<Rightarrow> engrave_world \<Rightarrow> panic + (bool \<times> engrave_world)" where
  "Layout_loop pl w =
     (case Layout_iter pl w of
        Continue w' \<Rightarrow> Layout_loop pl w'
      | Break w' \<Rightarrow> Inr (False, w')
      | Done w' \<Rightarrow> Inr (True, w')
      | Panicked p \<Rightarrow> Inl p)"
  by pat_completeness auto
termination
  by (relation "measure Layout_measure") (auto simp: Layout_iter_decreases)

text \<open>\<^verbatim>\<open>EngraveScreen.Layout\<close>: the channel loop, then the event loop.\<close>

definition Layout :: "Platform \<Rightarrow> worker_msg list \<Rightarrow> engrave_world \<Rightarrow> panic + (bool \<times> engrave_world)" where
  "Layout pl inbox w =
     (case w of (s, ctx, gs) \<Rightarrow>
      case Layout_recv inbox (s, ctx) of (done, s', ctx') \<Rightarrow>
        if done then Inr (True, (s', ctx', gs)) else Layout_loop pl (s', ctx', gs))"

section \<open>Frame scheduler (gui.go, App.Frame)\<close>

text \<open>
  Of the application the model keeps the context, the debug flag, the idle state
  (\<open>idle_armed\<close> holds when \<^verbatim>\<open>a.idle.timeout\<close> is a running timer), the screenshot counter
  and, as \<open>saver_runs\<close>, how often \<^verbatim>\<open>saveScreen\<close> has run. Drawing is left out.
\<close>

record App =
  app_ctx :: Context
  Debug :: bool
  eatButton :: bool
  idle_armed :: bool
  saver_runs :: nat
  screenshotCounter :: nat

text \<open>What the first \<^verbatim>\<open>select\<close> of \<^verbatim>\<open>Frame\<close> receives.\<close>

datatype wake = SDCard bool | Wakeup | IdleTimeout

text \<open>
  The first \<^verbatim>\<open>select\<close>. A \<^verbatim>\<open>nil\<close> timer channel never delivers: with the idle timer not
  armed the idle branch cannot be taken, which is \<open>None\<close>.
\<close>

fun Frame_select :: "wake \<Rightarrow> App \<Rightarrow> App option" where
  "Frame_select (SDCard inserted) a = Some (a\<lparr>app_ctx := (app_ctx a)\<lparr>NoSDCard := \<not> inserted\<rparr>\<rparr>)"
| "Frame_select Wakeup a = Some a"
| "Frame_select IdleTimeout a =
     (if idle_armed a then Some (a\<lparr>saver_runs := saver_runs a + 1, eatButton := True\<rparr>) else None)"

text \<open>
  The loop over the button channel; \<open>btns\<close> lists the events that are waiting in it. The
  state is the \<^verbatim>\<open>screenshot\<close> flag, \<^verbatim>\<open>a.idle.eatButton\<close> and the context.
\<close>

fun Frame_buttons :: "time \<Rightarrow> input_Event list \<Rightarrow> bool \<times> bool \<times> Context \<Rightarrow> bool \<times> bool \<times> Context" where
  "Frame_buttons now [] st = st"
| "Frame_buttons now (e # es) (screenshot, eat, c) =
     (if Button e = Screenshot then Frame_buttons now es (True, eat, c)
      else if eat then Frame_buttons now es (screenshot, False, c)
      else Frame_buttons now es (screenshot, eat, Events now c [e]))"

text \<open>\<^verbatim>\<open>Frame\<close> up to the call of the screen's \<^verbatim>\<open>Layout\<close>.\<close>

definition Frame_input :: "time \<Rightarrow> wake \<Rightarrow> input_Event list \<Rightarrow> App \<Rightarrow> (App \<times> bool) option" where
  "Frame_input now w btns a =
     (case Frame_select w a of
        None \<Rightarrow> None
      | Some a1 \<Rightarrow>
          (case Frame_buttons now btns (False, eatButton a1, app_ctx a1) of
             (screenshot, eat, c1) \<Rightarrow>
               let c2 = Repeat now c1;
                   pressed = foldl (\<lambda>pressed b. pressed \<or> b) False (Buttons c2)
               in Some (a1\<lparr>app_ctx := c2, eatButton := eat, idle_armed := \<not> pressed\<rparr>, screenshot)))"

text \<open>
  \<^verbatim>\<open>Frame\<close>. The tree of screens is a parameter: \<open>layout\<close> is what \<^verbatim>\<open>a.scr.Layout\<close> does
  to the context.
\<close>

definition Frame :: "time \<Rightarrow> (Context \<Rightarrow> Context) \<Rightarrow> wake \<Rightarrow> input_Event list \<Rightarrow> App \<Rightarrow> App option" where
  "Frame now layout w btns a =
     (case Frame_input now w btns a of
        None \<Rightarrow> None
      | Some (a2, screenshot) \<Rightarrow>
          Some (a2\<lparr>app_ctx := layout (app_ctx a2),
                   screenshotCounter :=
                     (if Debug a2 \<and> screenshot then screenshotCounter a2 + 1
                      else screenshotCounter a2)\<rparr>))"

section \<open>Word keyboard (gui.go, Keyboard)\<close>

text \<open>
  The keyboard's word, the number of completions and the mask of invalid keys; the cursor
  and the geometry are left out. Runes are integers; \<open>0x232B\<close> is the backspace key.
  The word list of the \<^verbatim>\<open>bip39\<close> package is the parameter \<open>wl\<close>.
\<close>

record Keyboard =
  Word :: string
  nvalid :: int
  mask :: "32 word"

definition backspace :: int where "backspace = 0x232B"

text \<open>
  \<^verbatim>\<open>strings.ToLower\<close> on ASCII text: the letters \<open>A\<close> to \<open>Z\<close> are mapped, every other byte
  is left as it is. The word of the keyboard holds only runes that \<^verbatim>\<open>Valid\<close> accepts,
  which are the 32 ASCII characters from \<open>A\<close> on.
\<close>

definition lowerChar :: "char \<Rightarrow> char" where
  "lowerChar c = (if CHR ''A'' \<le> c \<and> c \<le> CHR ''Z'' then char_of (of_char c + (32::nat)) else c)"

definition ToLower :: "string \<Rightarrow> string" where
  "ToLower s = map lowerChar s"

text \<open>
  Modelled from the spec: \<^verbatim>\<open>bip39.ClosestWord\<close> and \<^verbatim>\<open>bip39.LabelFor\<close> are not among the
  sources. By its use in \<^verbatim>\<open>updateMask\<close>, which counts the completions upwards from the
  word it returns, and in \<^verbatim>\<open>Complete\<close>, \<^verbatim>\<open>ClosestWord\<close> yields the first word of the list
  that starts with the given text, if there is one; \<^verbatim>\<open>LabelFor\<close> is the word at an index.
\<close>

definition ClosestWord :: "string list \<Rightarrow> string \<Rightarrow> nat option" where
  "ClosestWord wl word = find (\<lambda>i. prefix word (wl ! i)) [0 ..< length wl]"

definition LabelFor :: "string list \<Rightarrow> nat \<Rightarrow> string" where
  "LabelFor wl w = wl ! w"

definition idxForRune :: "int \<Rightarrow> nat option" where
  "idxForRune r = (let idx = r - 65 in if idx < 0 \<or> idx \<ge> 32 then None else Some (nat idx))"

definition Valid :: "Keyboard \<Rightarrow> int \<Rightarrow> bool" where
  "Valid k r =
     (if r = backspace then length (Word k) > 0
      else case idxForRune r of
             None \<Rightarrow> False
           | Some idx \<Rightarrow> mask k AND push_bit idx 1 = 0)"

text \<open>
  The loop of \<^verbatim>\<open>updateMask\<close> over the word list from the closest word on; \<open>None\<close> is the
  panic "valid by construction".
\<close>

fun updateMask_loop :: "string \<Rightarrow> string list \<Rightarrow> int \<times> 32 word \<Rightarrow> (int \<times> 32 word) option" where
  "updateMask_loop word [] (n, m) = Some (n, m)"
| "updateMask_loop word (bip39w # rest) (n, m) =
     (if \<not> prefix word bip39w then Some (n, m)
      else
        let suffix = drop (length word) bip39w in
        if length suffix > 0 then
          (case idxForRune (of_char (hd (ToUpper suffix))) of
             None \<Rightarrow> None
           | Some idx \<Rightarrow> updateMask_loop word rest (n + 1, m AND NOT (push_bit idx 1)))
        else updateMask_loop word rest (n + 1, m))"

definition updateMask :: "string list \<Rightarrow> Keyboard \<Rightarrow> Keyboard option" where
  "updateMask wl k =
     (let k1 = k\<lparr>mask := - 1\<rparr>;
          word = ToLower (Word k1)
      in case ClosestWord wl word of
           None \<Rightarrow> Some k1
         | Some w \<Rightarrow>
             (case updateMask_loop word (drop w wl) (0, mask k1) of
                None \<Rightarrow> None
              | Some (n, m) \<Rightarrow> Some (k1\<lparr>nvalid := n, mask := (if n = 1 then - 1 else m)\<rparr>)))"

definition Clear :: "string list \<Rightarrow> Keyboard \<Rightarrow> Keyboard option" where
  "Clear wl k = updateMask wl (k\<lparr>Word := []\<rparr>)"

definition NewKeyboard :: "string list \<Rightarrow> Keyboard option" where
  "NewKeyboard wl = Clear wl \<lparr>Word = [], nvalid = 0, mask = 0\<rparr>"

text \<open>
  \<^verbatim>\<open>Keyboard.rune\<close>. A valid key other than backspace is one of the 32 runes from \<open>A\<close> on,
  a single byte; the word holds single-byte characters only.
\<close>

definition kbd_rune :: "string list \<Rightarrow> Keyboard \<Rightarrow> int \<Rightarrow> Keyboard option" where
  "kbd_rune wl k r =
     (if \<not> Valid k r then Some k
      else if r = backspace then updateMask wl (k\<lparr>Word := butlast (Word k)\<rparr>)
      else updateMask wl (k\<lparr>Word := Word k @ [char_of r]\<rparr>))"

definition Complete :: "string list \<Rightarrow> Keyboard \<Rightarrow> int \<times> bool" where
  "Complete wl k =
     (let word = ToLower (Word k) in
      case ClosestWord wl word of
        None \<Rightarrow> (- 1, False)
      | Some w \<Rightarrow> (int w, nvalid k = 1 \<or> word = LabelFor wl w))"

text \<open>
  Entering runes one after the other, as \<^verbatim>\<open>WordKeyboardScreen.Layout\<close> does with the rune
  events of the queue (\<^verbatim>\<open>Keyboard.Event\<close> passes the rune of a pressed event to
  \<^verbatim>\<open>Keyboard.rune\<close>).
\<close>

fun enter :: "string list \<Rightarrow> Keyboard \<Rightarrow> int list \<Rightarrow> Keyboard option" where
  "enter wl k [] = Some k"
| "enter wl k (r # rs) = (case kbd_rune wl k r of None \<Rightarrow> None | Some k' \<Rightarrow> enter wl k' rs)"

text \<open>The runes of a word as the keyboard's keys show them: its letters in upper case.\<close>

definition letters :: "string \<Rightarrow> int list" where
  "letters w = map (\<lambda>c. of_char c) (ToUpper w)"

section \<open>Clicks (C4)\<close>

lemma Button_mkEvent [simp]: "Button (mkEvent e) = Button e"
  and Pressed_mkEvent [simp]: "Pressed (mkEvent e) = Pressed e"
  and Click_mkEvent [simp]: "Click (mkEvent e) = False"
  and Rune_mkEvent [simp]: "Rune (mkEvent e) = Rune e"
  by (simp_all add: mkEvent_def)

lemma Events_Nil [simp]: "Events now c [] = c"
  by (simp add: Events_def)

lemma Events_Cons [simp]: "Events now c (e # es) = Events now (Events1 now c e) es"
  by (simp add: Events_def)

lemma Events_append: "Events now c (xs @ ys) = Events now (Events now c xs) ys"
  by (simp add: Events_def)

lemma Events1_events:
  "events (Events1 now c e) = events c @
     [(mkEvent e)\<lparr>Click := Button e < length (Buttons c) \<and> \<not> Pressed e \<and> Buttons c ! Button e\<rparr>]"
  by (simp add: Events1_def Let_def mkEvent_def)

lemma Events1_Buttons:
  "Buttons (Events1 now c e) =
     (if Button e < length (Buttons c) then (Buttons c)[Button e := Pressed e] else Buttons c)"
  by (simp add: Events1_def Let_def)

lemma Events_other_buttons:
  "\<forall>e\<in>set mid. Button e \<noteq> b \<Longrightarrow>
   \<exists>new. events (Events now c mid) = events c @ new \<and> (\<forall>e\<in>set new. Button e \<noteq> b) \<and>
         length new = length mid \<and>
         Buttons (Events now c mid) ! b = Buttons c ! b \<and>
         length (Buttons (Events now c mid)) = length (Buttons c)"
proof (induction mid arbitrary: c)
  case Nil
  then show ?case by simp
next
  case (Cons e mid)
  from Cons.prems have ne: "Button e \<noteq> b" and rest: "\<forall>e\<in>set mid. Button e \<noteq> b" by simp_all
  from Cons.IH[OF rest, of "Events1 now c e"] obtain new where
    new: "events (Events now (Events1 now c e) mid) = events (Events1 now c e) @ new"
      "\<forall>e\<in>set new. Button e \<noteq> b" "length new = length mid"
      "Buttons (Events now (Events1 now c e) mid) ! b = Buttons (Events1 now c e) ! b"
      "length (Buttons (Events now (Events1 now c e) mid)) = length (Buttons (Events1 now c e))"
    by blast
  let ?ev = "(mkEvent e)\<lparr>Click := Button e < length (Buttons c) \<and> \<not> Pressed e \<and> Buttons c ! Button e\<rparr>"
  have "events (Events now c (e # mid)) = events c @ (?ev # new)"
    using new(1) by (simp add: Events1_events)
  moreover have "\<forall>x\<in>set (?ev # new). Button x \<noteq> b" using new(2) ne by simp
  moreover have "Buttons (Events now c (e # mid)) ! b = Buttons c ! b"
    using new(4) ne by (simp add: Events1_Buttons)
  moreover have "length (Buttons (Events now c (e # mid))) = length (Buttons c)"
    using new(5) by (simp add: Events1_Buttons)
  moreover have "length (?ev # new) = length (e # mid)" using new(3) by simp
  ultimately show ?case by blast
qed

definition ctx0 :: Context where
  "ctx0 = \<lparr>Buttons = replicate 8 False, Repeats = replicate 8 0, Calibrated = False,
           NoSDCard = False, EnableSeedScan = True, events = []\<rparr>"

text \<open>
  C4, as the code has it. Let \<open>b\<close> be a button of the button-state array. A press of \<open>b\<close>
  is queued with the click flag false and sets the pressed flag of \<open>b\<close> in the context. A
  release of \<open>b\<close> is queued with the click flag equal to the pressed flag of \<open>b\<close> at the time
  it is submitted, and clears that flag. Hence a press \<open>p\<close> of \<open>b\<close>, then events \<open>mid\<close> of
  other buttons, then a release \<open>r\<close> of \<open>b\<close>, submitted in one call of \<^verbatim>\<open>Context.Events\<close>,
  queue for \<open>b\<close> the press with the click flag false and the release with the click flag
  true: exactly one click. Submitted in a later call, the release is a click exactly when
  the pressed flag is still set then; the hold-to-confirm screens clear it when they
  process the press.
\<close>

theorem Events_click_contract:
  assumes b: "b < length (Buttons c)"
  shows "(Button p = b \<and> Pressed p \<and> (\<forall>e\<in>set mid. Button e \<noteq> b) \<longrightarrow>
            filter (\<lambda>e. Button e = b)
              (drop (length (events c)) (events (Events now c (p # mid)))) = [mkEvent p] \<and>
            Buttons (Events now c (p # mid)) ! b) \<and>
         (Button r = b \<and> \<not> Pressed r \<and> (\<forall>e\<in>set mid. Button e \<noteq> b) \<longrightarrow>
            filter (\<lambda>e. Button e = b)
              (drop (length (events c)) (events (Events now c (mid @ [r]))))
              = [(mkEvent r)\<lparr>Click := Buttons c ! b\<rparr>] \<and>
            \<not> Buttons (Events now c (mid @ [r])) ! b) \<and>
         (Button p = b \<and> Pressed p \<and> Button r = b \<and> \<not> Pressed r \<and>
          (\<forall>e\<in>set mid. Button e \<noteq> b) \<longrightarrow>
            filter (\<lambda>e. Button e = b)
              (drop (length (events c)) (events (Events now c (p # mid @ [r]))))
              = [mkEvent p, (mkEvent r)\<lparr>Click := True\<rparr>])"
proof (intro conjI impI; elim conjE)
  assume p: "Button p = b" "Pressed p" and mid: "\<forall>e\<in>set mid. Button e \<noteq> b"
  let ?c1 = "Events1 now c p"
  have ev1: "events ?c1 = events c @ [mkEvent p]"
    using p by (simp add: Events1_events)
  have b1: "Buttons ?c1 ! b" "length (Buttons ?c1) = length (Buttons c)"
    using b p by (simp_all add: Events1_Buttons)
  from Events_other_buttons[OF mid, of now ?c1] obtain new where
    new: "events (Events now ?c1 mid) = events ?c1 @ new" "\<forall>e\<in>set new. Button e \<noteq> b"
      "Buttons (Events now ?c1 mid) ! b = Buttons ?c1 ! b"
    by blast
  show "filter (\<lambda>e. Button e = b)
          (drop (length (events c)) (events (Events now c (p # mid)))) = [mkEvent p]"
    using new(1,2) ev1 p by simp
  show "Buttons (Events now c (p # mid)) ! b" using new(3) b1(1) by simp
next
  assume r: "Button r = b" "\<not> Pressed r" and mid: "\<forall>e\<in>set mid. Button e \<noteq> b"
  from Events_other_buttons[OF mid, of now c] obtain new where
    new: "events (Events now c mid) = events c @ new" "\<forall>e\<in>set new. Button e \<noteq> b"
      "Buttons (Events now c mid) ! b = Buttons c ! b"
      "length (Buttons (Events now c mid)) = length (Buttons c)"
    by blast
  let ?c2 = "Events now c mid"
  have e: "Events now c (mid @ [r]) = Events1 now ?c2 r"
    by (simp add: Events_append)
  have "events (Events now c (mid @ [r]))
      = events c @ new @ [(mkEvent r)\<lparr>Click := Buttons c ! b\<rparr>]"
    unfolding e using new b r by (simp add: Events1_events)
  then show "filter (\<lambda>e. Button e = b)
          (drop (length (events c)) (events (Events now c (mid @ [r]))))
        = [(mkEvent r)\<lparr>Click := Buttons c ! b\<rparr>]"
    using new(2) r by simp
  show "\<not> Buttons (Events now c (mid @ [r])) ! b"
    unfolding e using new(4) b r by (simp add: Events1_Buttons)
next
  assume p: "Button p = b" "Pressed p" and r: "Button r = b" "\<not> Pressed r"
    and mid: "\<forall>e\<in>set mid. Button e \<noteq> b"
  let ?c1 = "Events1 now c p"
  have ev1: "events ?c1 = events c @ [mkEvent p]"
    using p by (simp add: Events1_events)
  have b1: "Buttons ?c1 ! b" "length (Buttons ?c1) = length (Buttons c)"
    using b p by (simp_all add: Events1_Buttons)
  from Events_other_buttons[OF mid, of now ?c1] obtain new where
    new: "events (Events now ?c1 mid) = events ?c1 @ new" "\<forall>e\<in>set new. Button e \<noteq> b"
      "Buttons (Events now ?c1 mid) ! b = Buttons ?c1 ! b"
      "length (Buttons (Events now ?c1 mid)) = length (Buttons ?c1)"
    by blast
  let ?c2 = "Events now ?c1 mid"
  have "Events now c (p # mid @ [r]) = Events1 now ?c2 r"
    by (simp add: Events_append)
  then have "events (Events now c (p # mid @ [r]))
      = events c @ mkEvent p # new @ [(mkEvent r)\<lparr>Click := True\<rparr>]"
    using new b1 b r ev1 by (simp add: Events1_events)
  then show "filter (\<lambda>e. Button e = b)
          (drop (length (events c)) (events (Events now c (p # mid @ [r]))))
        = [mkEvent p, (mkEvent r)\<lparr>Click := True\<rparr>]"
    using new(2) p r by simp
qed

theorem Events_click_contract_witness:
  "filter (\<lambda>e. Button e = Button3)
     (drop (length (events ctx0)) (events (Events 0 ctx0
        [\<lparr>Button = Button3, Pressed = True, Rune = 0\<rparr>,
         \<lparr>Button = Up, Pressed = True, Rune = 0\<rparr>,
         \<lparr>Button = Button3, Pressed = False, Rune = 0\<rparr>])))
   = [\<lparr>Button = Button3, Pressed = True, Rune = 0, Click = False\<rparr>,
      \<lparr>Button = Button3, Pressed = False, Rune = 0, Click = True\<rparr>] \<and>
   filter (\<lambda>e. Button e = Button3)
     (drop (length (events ctx0)) (events (Events 0 ctx0
        [\<lparr>Button = Up, Pressed = True, Rune = 0\<rparr>,
         \<lparr>Button = Button3, Pressed = False, Rune = 0\<rparr>])))
   = [\<lparr>Button = Button3, Pressed = False, Rune = 0, Click = False\<rparr>]"
  using Events_click_contract[where b = Button3 and c = ctx0
      and p = "\<lparr>Button = Button3, Pressed = True, Rune = 0\<rparr>"
      and mid = "[\<lparr>Button = Up, Pressed = True, Rune = 0\<rparr>]"
      and r = "\<lparr>Button = Button3, Pressed = False, Rune = 0\<rparr>" and now = 0]
  by (simp add: button_defs mkEvent_def ctx0_def)

text \<open>
  Against C4 as stated: button 3 is pressed while the hold dialog of the engrave screen is
  shown, the dialog processes the press, and button 3 is released half a second later.
  Nothing else happened to button 3 in between, and the release is queued with the click
  flag false: there is no click.
\<close>

theorem hold_release_no_click_counterexample:
  "ConfirmWarningScreen_Layout 0 cancelDialog
     (Events 0 ctx0 [\<lparr>Button = Button3, Pressed = True, Rune = 0\<rparr>])
     = (ConfirmNone, cancelDialog\<lparr>confirm := Start 0 confirmDelay\<rparr>, ctx0) \<and>
   events (Events 500000000 ctx0 [\<lparr>Button = Button3, Pressed = False, Rune = 0\<rparr>])
     = [\<lparr>Button = Button3, Pressed = False, Rune = 0, Click = False\<rparr>]"
proof -
  have "(replicate 8 False)[7 := False] = replicate 8 False"
    by (simp add: list_eq_iff_nth_eq nth_list_update)
  then show ?thesis
    by (simp add: ConfirmWarningScreen_Layout_def Events1_def cancelDialog_def ctx0_def
        mkEvent_def Let_def button_defs isRepeatButton_def)
qed

section \<open>The hold timer's progress (C7)\<close>

text \<open>
  C7, as the code has it. \<^verbatim>\<open>Progress\<close> is 0 when the timer is not armed and 1 from the
  deadline on, whatever duration the timer was armed with. Before the deadline it is the
  \<^verbatim>\<open>float32\<close> value of 1 minus the remaining time divided by the constant
  \<^verbatim>\<open>confirmDelay\<close>. For a timer armed with \<^verbatim>\<open>confirmDelay\<close>, the one duration the program
  passes to \<^verbatim>\<open>Start\<close>, and a query from the arming time on, that value lies between 0
  and 1, differs from the linear interpolation between the arming time and the deadline by
  at most \<open>1 / 2 ^ 22\<close>, and is 1 exactly when 29 nanoseconds or less remain: the rounding
  to \<^verbatim>\<open>float32\<close> makes the progress reach 1 up to 29 nanoseconds before the deadline.
\<close>

theorem Progress_contract:
  "(\<not> Running c \<longrightarrow> Progress now c = 0) \<and>
   (armed + delay \<le> now \<longrightarrow> Progress now (Start armed delay) = 1) \<and>
   (now < armed + delay \<longrightarrow>
      Progress now (Start armed delay) =
        float32 (1 - float32 (float64 (Seconds (armed + delay - now) / Seconds confirmDelay)))) \<and>
   (armed \<le> now \<and> now < armed + confirmDelay \<longrightarrow>
      0 \<le> Progress now (Start armed confirmDelay) \<and>
      Progress now (Start armed confirmDelay) \<le> 1 \<and>
      \<bar>Progress now (Start armed confirmDelay) -
         spec_interpolation armed (armed + confirmDelay) now\<bar> \<le> 1 / 2 ^ 22 \<and>
      (Progress now (Start armed confirmDelay) = 1 \<longleftrightarrow> armed + confirmDelay - now \<le> 29))"
proof (intro conjI impI)
  assume "\<not> Running c"
  then show "Progress now c = 0" by (simp add: Running_def Progress_def)
next
  assume "armed + delay \<le> now"
  then show "Progress now (Start armed delay) = 1" by (simp add: Progress_def Start_def)
next
  assume "now < armed + delay"
  then show "Progress now (Start armed delay) =
        float32 (1 - float32 (float64 (Seconds (armed + delay - now) / Seconds confirmDelay)))"
    by (simp add: Progress_def Start_def)
next
  assume a: "armed \<le> now \<and> now < armed + confirmDelay"
  let ?d = "armed + confirmDelay - now"
  from a have d: "0 < ?d" "?d \<le> 1000000000" by (simp_all add: confirmDelay_def)
  have P: "Progress now (Start armed confirmDelay) = float32 (1 - remaining ?d)"
    using d(1) by (intro Progress_Some) (simp_all add: Start_def)
  show "0 \<le> Progress now (Start armed confirmDelay)"
    unfolding P by (rule Progress_range(1)[OF d])
  show "Progress now (Start armed confirmDelay) \<le> 1"
    unfolding P by (rule Progress_range(2)[OF d])
  have "spec_interpolation armed (armed + confirmDelay) now = 1 - of_int ?d / 1000000000"
    by (simp add: spec_interpolation_def confirmDelay_def field_simps)
  then show "\<bar>Progress now (Start armed confirmDelay) -
         spec_interpolation armed (armed + confirmDelay) now\<bar> \<le> 1 / 2 ^ 22"
    unfolding P using Progress_error[OF d] by simp
  show "Progress now (Start armed confirmDelay) = 1 \<longleftrightarrow> ?d \<le> 29"
  proof (cases "?d \<le> 29")
    case True
    with Progress_early_1[OF d(1)] show ?thesis unfolding P by simp
  next
    case False
    then have "30 \<le> ?d" by simp
    from Progress_below_1[OF this d(2)] False show ?thesis unfolding P by simp
  qed
qed

theorem Progress_contract_witness:
  "Progress 5 ConfirmDelay0 = 0 \<and>
   Progress 1000000007 (Start 7 confirmDelay) = 1 \<and>
   Progress 999999978 (Start 7 confirmDelay) = 1 \<and>
   0 \<le> Progress 999999977 (Start 7 confirmDelay) \<and>
   Progress 999999977 (Start 7 confirmDelay) < 1"
  using Progress_contract[of ConfirmDelay0 5 7 confirmDelay]
    Progress_contract[of ConfirmDelay0 1000000007 7 confirmDelay]
    Progress_contract[of ConfirmDelay0 999999978 7 confirmDelay]
    Progress_contract[of ConfirmDelay0 999999977 7 confirmDelay]
  by (simp add: Running_def ConfirmDelay0_def confirmDelay_def)

text \<open>
  Against C7 as stated: a timer armed at time 0 with \<^verbatim>\<open>confirmDelay\<close> and queried 29
  nanoseconds before its deadline already returns 1, where the linear interpolation is
  still below 1. The progress does not reach 1 exactly at the deadline.
\<close>

theorem Progress_early_counterexample:
  "Progress 999999971 (Start 0 confirmDelay) = 1 \<and>
   spec_interpolation 0 (0 + confirmDelay) 999999971 = 999999971 / 1000000000"
proof -
  have "Progress 999999971 (Start 0 confirmDelay) = float32 (1 - remaining (1000000000 - 999999971))"
    by (intro Progress_Some) (simp_all add: Start_def confirmDelay_def)
  moreover have "float32 (1 - remaining 29) = 1" by (rule Progress_early_1) simp_all
  ultimately show ?thesis by (simp add: spec_interpolation_def confirmDelay_def)
qed


section \<open>Connect instruction (C6)\<close>

text \<open>
  C6. \<^verbatim>\<open>moveStep\<close> on a connect instruction: with a device handle it returns \<^verbatim>\<open>false\<close> and
  leaves the screen as it is; without one, a failed open sets the non-fatal
  "Connection Error" warning, keeps the step, the hold timer and an absent handle (so the
  same gesture runs the same attempt again); and the step changes, by one, exactly when
  there was no handle and the open succeeded.
\<close>

theorem moveStep_at_connect:
  assumes "index (instructions s) (step s) = Some ins" and "Type ins = ConnectInstruction"
  shows "(dev (engrave s) \<noteq> None \<longrightarrow> moveStep pl s = Inr (False, s, [])) \<and>
         (dev (engrave s) = None \<and> Engraver pl = None \<longrightarrow>
            moveStep pl s =
              Inr (False, s\<lparr>engrave := engraveState0\<lparr>warning := Some connErrorScreen\<rparr>\<rparr>, []) \<and>
            \<not> fatal (engraveState0\<lparr>warning := Some connErrorScreen\<rparr>) \<and>
            dev (engraveState0\<lparr>warning := Some connErrorScreen\<rparr>) = None) \<and>
         (\<forall>r s' g. moveStep pl s = Inr (r, s', g) \<longrightarrow>
            (step s' \<noteq> step s \<longleftrightarrow> dev (engrave s) = None \<and> Engraver pl \<noteq> None) \<and>
            (step s' \<noteq> step s \<longrightarrow> step s' = step s + 1))"
  using assms
  by (auto simp: moveStep_def moveStep_connect_def Let_def close_def engraveState0_def
      split: option.splits if_splits)

definition connect_screen :: EngraveScreen where
  "connect_screen = (NewEngraveScreen ctx0 1)\<lparr>step := 9\<rparr>"

definition worker1 :: "action list list" where
  "worker1 = [[RunEngrave (Some 1) 0 False, CloseDev (Some 1), SendErr], [FeedProgram 0]]"

lemma index_connect_screen:
  "index (instructions connect_screen) (step connect_screen) = Some \<lparr>Type = ConnectInstruction, Side = 0\<rparr>"
  by (simp add: connect_screen_def NewEngraveScreen_def ctx0_def index_def EngraveFirstSideA_def
      EngraveSuccess_def prepare_def nth_append)

lemma connect_screen_sel:
  "es_confirm connect_screen = ConfirmDelay0" "dryRun_timeout connect_screen = None"
  "es_cancel connect_screen = None" "engrave connect_screen = engraveState0"
  "step connect_screen = 9" "plate_sides connect_screen = 1" "\<not> dryRun_enabled connect_screen"
  by (simp_all add: connect_screen_def NewEngraveScreen_def)

lemma index_connect_screen_next:
  "index (instructions connect_screen) 10 = Some \<lparr>Type = EngraveInstruction, Side = 0\<rparr>"
  "length (instructions connect_screen) = 12"
  by (simp_all add: connect_screen_def NewEngraveScreen_def ctx0_def index_def EngraveFirstSideA_def
      EngraveSuccess_def prepare_def nth_append)

lemma moveStep_connect_screen:
  "moveStep \<lparr>Now = t, Engraver = Some 1\<rparr> connect_screen
     = Inr (False,
            connect_screen\<lparr>engrave := engraveState0\<lparr>dev := Some 1\<rparr>, step := 10,
               engrave := engraveState0\<lparr>dev := Some 1, cancel := True, errs := True, progress := True\<rparr>\<rparr>,
            worker1)"
proof -
  have c: "moveStep_connect \<lparr>Now = t, Engraver = Some 1\<rparr> \<lparr>Type = ConnectInstruction, Side = 0\<rparr> connect_screen
      = Advance (connect_screen\<lparr>engrave := engraveState0\<lparr>dev := Some 1\<rparr>\<rparr>)"
    by (simp add: moveStep_connect_def connect_screen_sel)
  show ?thesis
    unfolding moveStep_def index_connect_screen option.case c connect_result.case
    using index_connect_screen_next
    by (simp add: Let_def connect_screen_sel worker1_def)
qed

theorem moveStep_at_connect_witness:
  "moveStep \<lparr>Now = 0, Engraver = None\<rparr> connect_screen
     = Inr (False, connect_screen\<lparr>engrave := engraveState0\<lparr>warning := Some connErrorScreen\<rparr>\<rparr>, []) \<and>
   moveStep \<lparr>Now = 0, Engraver = Some 1\<rparr> connect_screen
     = Inr (False,
            connect_screen\<lparr>engrave := engraveState0\<lparr>dev := Some 1\<rparr>, step := 10,
               engrave := engraveState0\<lparr>dev := Some 1, cancel := True, errs := True, progress := True\<rparr>\<rparr>,
            worker1) \<and>
   step (connect_screen\<lparr>engrave := engraveState0\<lparr>dev := Some 1\<rparr>, step := 10,
               engrave := engraveState0\<lparr>dev := Some 1, cancel := True, errs := True, progress := True\<rparr>\<rparr>)
     = step connect_screen + 1"
proof -
  have ty: "Type \<lparr>Type = ConnectInstruction, Side = 0\<rparr> = ConnectInstruction" by simp
  note t = moveStep_at_connect[OF index_connect_screen ty]
  have a: "moveStep \<lparr>Now = 0, Engraver = None\<rparr> connect_screen
     = Inr (False, connect_screen\<lparr>engrave := engraveState0\<lparr>warning := Some connErrorScreen\<rparr>\<rparr>, [])"
    using t[of "\<lparr>Now = 0, Engraver = None\<rparr>"] by (simp add: connect_screen_sel)
  note b = moveStep_connect_screen[of 0]
  have c: "step (connect_screen\<lparr>engrave := engraveState0\<lparr>dev := Some 1\<rparr>, step := 10,
               engrave := engraveState0\<lparr>dev := Some 1, cancel := True, errs := True, progress := True\<rparr>\<rparr>)
     = step connect_screen + 1"
    using t[of "\<lparr>Now = 0, Engraver = Some 1\<rparr>", THEN conjunct2, THEN conjunct2, rule_format, OF b]
    by (simp add: connect_screen_sel)
  show ?thesis using a b c by (intro conjI)
qed

section \<open>Descriptor validation (C2)\<close>

lemma validateKeys_append:
  "validateKeys X p seen (pre @ rest) =
     (case validateKeys X p seen pre of
        Some e \<Rightarrow> Some e
      | None \<Rightarrow> validateKeys X p (\<lambda>x. seen x \<or> x \<in> keyString X ` set pre) rest)"
proof (induction pre arbitrary: seen)
  case Nil
  then show ?case by simp
next
  case (Cons k pre)
  have eq: "(\<lambda>x. (seen(keyString X k := True)) x \<or> x \<in> keyString X ` set pre)
          = (\<lambda>x. seen x \<or> x \<in> keyString X ` set (k # pre))"
    by auto
  have IH: "validateKeys X p (seen(keyString X k := True)) (pre @ rest) =
     (case validateKeys X p (seen(keyString X k := True)) pre of
        Some e \<Rightarrow> Some e
      | None \<Rightarrow> validateKeys X p (\<lambda>x. seen x \<or> x \<in> keyString X ` set (k # pre)) rest)"
    using Cons.IH[of "seen(keyString X k := True)"] unfolding eq .
  show ?case by (simp add: Let_def IH del: fun_upd_apply set_simps)
qed

lemma seen_step:
  fixes f :: "'a \<Rightarrow> 'b"
  shows "(\<not> seen (f y) \<and> Q y \<and> (\<forall>x\<in>set xs. \<not> (seen(f y := True)) (f x)) \<and>
          distinct (map f xs) \<and> (\<forall>x\<in>set xs. Q x)) \<longleftrightarrow>
         ((\<forall>x\<in>set (y # xs). \<not> seen (f x)) \<and> distinct (map f (y # xs)) \<and>
          (\<forall>x\<in>set (y # xs). Q x))"
  by (auto simp: image_iff dest: sym)

lemma validateKeys_Cons_None:
  "validateKeys X p seen (k # ks) = None \<longleftrightarrow>
     \<not> seen (keyString X k) \<and> p \<noteq> [] \<and> DerivationPath k = p \<and>
     validateKeys X p (seen(keyString X k := True)) ks = None"
  by (simp add: Let_def del: fun_upd_apply)

lemma validateKeys_None_iff:
  "validateKeys X p seen ks = None \<longleftrightarrow>
     (\<forall>k\<in>set ks. \<not> seen (keyString X k)) \<and> distinct (map (keyString X) ks) \<and>
     (\<forall>k\<in>set ks. p \<noteq> [] \<and> DerivationPath k = p)"
proof (induction ks arbitrary: seen)
  case Nil
  then show ?case by simp
next
  case (Cons k ks)
  have "validateKeys X p seen (k # ks) = None \<longleftrightarrow>
     (\<not> seen (keyString X k) \<and> (p \<noteq> [] \<and> DerivationPath k = p) \<and>
     (\<forall>k'\<in>set ks. \<not> (seen(keyString X k := True)) (keyString X k')) \<and>
     distinct (map (keyString X) ks) \<and> (\<forall>k\<in>set ks. p \<noteq> [] \<and> DerivationPath k = p))"
    unfolding validateKeys_Cons_None Cons.IH[of "seen(keyString X k := True)"] by blast
  also have "\<dots> \<longleftrightarrow> (\<forall>k\<in>set (k # ks). \<not> seen (keyString X k)) \<and>
     distinct (map (keyString X) (k # ks)) \<and> (\<forall>k\<in>set (k # ks). p \<noteq> [] \<and> DerivationPath k = p)"
    by (rule seen_step[of seen "keyString X" k "\<lambda>k. p \<noteq> [] \<and> DerivationPath k = p" ks])
  finally show ?case .
qed


definition keys_pass :: "Externals \<Rightarrow> OutputDescriptor \<Rightarrow> KeyDescriptor list \<Rightarrow> bool" where
  "keys_pass X desc ks \<longleftrightarrow>
     distinct (map (keyString X) ks) \<and>
     (\<forall>k\<in>set ks. descDerivationPath X desc \<noteq> [] \<and> DerivationPath k = descDerivationPath X desc)"

lemma validateKeys_pass: "validateKeys X (descDerivationPath X desc) (\<lambda>_. False) ks = None \<longleftrightarrow> keys_pass X desc ks"
  by (simp add: validateKeys_None_iff keys_pass_def)

lemma validateDescriptor_first_key:
  assumes "Keys desc = pre @ k # post" and "keys_pass X desc pre"
  shows "validateDescriptor X desc =
     (if keyString X k \<in> keyString X ` set pre then Some (errDuplicateKey (MasterFingerprint k))
      else if descDerivationPath X desc = [] \<or> DerivationPath k \<noteq> descDerivationPath X desc
      then Some (errNonstandardDerivation (DerivationPath k))
      else validateDescriptor X desc)"
proof -
  have "validateKeys X (descDerivationPath X desc) (\<lambda>_. False) pre = None"
    using assms(2) by (simp add: validateKeys_pass)
  then show ?thesis using assms(1)
    by (simp add: validateDescriptor_def validateKeys_append Let_def)
qed

lemma validateDescriptor_dup:
  "Keys desc = pre @ k # post \<and> keys_pass X desc pre \<and> keyString X k \<in> keyString X ` set pre \<longrightarrow>
   validateDescriptor X desc = Some (errDuplicateKey (MasterFingerprint k))"
proof (intro impI, elim conjE)
  assume a: "Keys desc = pre @ k # post" "keys_pass X desc pre" "keyString X k \<in> keyString X ` set pre"
  show "validateDescriptor X desc = Some (errDuplicateKey (MasterFingerprint k))"
    using validateDescriptor_first_key[OF a(1,2)] a(3) by simp
qed

lemma validateDescriptor_nonstd:
  "Keys desc = pre @ k # post \<and> keys_pass X desc pre \<and> keyString X k \<notin> keyString X ` set pre \<and>
   (descDerivationPath X desc = [] \<or> DerivationPath k \<noteq> descDerivationPath X desc) \<longrightarrow>
   validateDescriptor X desc = Some (errNonstandardDerivation (DerivationPath k))"
proof (intro impI, elim conjE)
  assume a: "Keys desc = pre @ k # post" "keys_pass X desc pre" "keyString X k \<notin> keyString X ` set pre"
    "descDerivationPath X desc = [] \<or> DerivationPath k \<noteq> descDerivationPath X desc"
  show "validateDescriptor X desc = Some (errNonstandardDerivation (DerivationPath k))"
    using validateDescriptor_first_key[OF a(1,2)] a(3,4) by (simp split: if_splits)
qed

lemma validateDescriptor_keys_pass:
  "keys_pass X desc (Keys desc) \<longrightarrow>
      validateDescriptor X desc =
        (case engraveError X desc of
           Some err \<Rightarrow> Some err
         | None \<Rightarrow> if recoverable X desc then None else Some (errorString notRecoverableMsg))"
proof
  assume "keys_pass X desc (Keys desc)"
  then have "validateKeys X (descDerivationPath X desc) (\<lambda>_. False) (Keys desc) = None"
    by (simp add: validateKeys_pass)
  then show "validateDescriptor X desc =
        (case engraveError X desc of
           Some err \<Rightarrow> Some err
         | None \<Rightarrow> if recoverable X desc then None else Some (errorString notRecoverableMsg))"
    by (simp add: validateDescriptor_def Let_def split: option.splits)
qed

lemma validateDescriptor_None_iff:
  "validateDescriptor X desc = None \<longleftrightarrow>
      keys_pass X desc (Keys desc) \<and> engraveError X desc = None \<and> recoverable X desc"
proof (cases "validateKeys X (descDerivationPath X desc) (\<lambda>_. False) (Keys desc)")
  case None
  then have "keys_pass X desc (Keys desc)" by (simp add: validateKeys_pass)
  then show ?thesis using None
    by (simp add: validateDescriptor_def Let_def split: option.splits)
next
  case (Some err)
  then have "\<not> keys_pass X desc (Keys desc)" using validateKeys_pass[of X desc "Keys desc"] by simp
  then show ?thesis using Some
    by (simp add: validateDescriptor_def Let_def)
qed

lemma DescriptorScreen_event_Button3:
  "Button e = Button3 \<and> Click e \<longrightarrow>
      DescriptorScreen_event X ctx s e =
        (case validateDescriptor X (Descriptor s) of
           Some err \<Rightarrow> (False, s\<lparr>ds_warning := Some (NewErrorScreen X err)\<rparr>)
         | None \<Rightarrow> (False, s\<lparr>seed := Some (NewEmptySeedScreen ctx ''Input Share'')\<rparr>))"
  by (simp add: DescriptorScreen_event_def button_defs)

theorem validateDescriptor_gate:
  "(\<forall>pre k post. Keys desc = pre @ k # post \<and> keys_pass X desc pre \<and>
        keyString X k \<in> keyString X ` set pre \<longrightarrow>
      validateDescriptor X desc = Some (errDuplicateKey (MasterFingerprint k))) \<and>
   (\<forall>pre k post. Keys desc = pre @ k # post \<and> keys_pass X desc pre \<and>
        keyString X k \<notin> keyString X ` set pre \<and>
        (descDerivationPath X desc = [] \<or> DerivationPath k \<noteq> descDerivationPath X desc) \<longrightarrow>
      validateDescriptor X desc = Some (errNonstandardDerivation (DerivationPath k))) \<and>
   (keys_pass X desc (Keys desc) \<longrightarrow>
      validateDescriptor X desc =
        (case engraveError X desc of
           Some err \<Rightarrow> Some err
         | None \<Rightarrow> if recoverable X desc then None else Some (errorString notRecoverableMsg))) \<and>
   (validateDescriptor X desc = None \<longleftrightarrow>
      keys_pass X desc (Keys desc) \<and> engraveError X desc = None \<and> recoverable X desc) \<and>
   (Button e = Button3 \<and> Click e \<longrightarrow>
      DescriptorScreen_event X ctx s e =
        (case validateDescriptor X (Descriptor s) of
           Some err \<Rightarrow> (False, s\<lparr>ds_warning := Some (NewErrorScreen X err)\<rparr>)
         | None \<Rightarrow> (False, s\<lparr>seed := Some (NewEmptySeedScreen ctx ''Input Share'')\<rparr>))) \<and>
   Title (NewErrorScreen X (errDuplicateKey fp)) = ''Duplicated Share'' \<and>
   Title (NewErrorScreen X (errNonstandardDerivation p)) = ''Non-standard Derivation'' \<and>
   Title (NewErrorScreen X ErrDescriptorTooLarge) = ''Too Large'' \<and>
   Title (NewErrorScreen X (errorString m)) = ''Error'' \<and> Body (NewErrorScreen X (errorString m)) = m"
  apply (intro conjI allI)
  apply (rule validateDescriptor_dup)
  apply (rule validateDescriptor_nonstd)
  apply (rule validateDescriptor_keys_pass)
  apply (rule validateDescriptor_None_iff)
  apply (rule DescriptorScreen_event_Button3)
  apply simp_all
  done


subsection \<open>C2 at concrete descriptors\<close>

definition stdPath :: Path where
  "stdPath = [0x80000030, 0x80000000, 0x80000000, 0x80000002]"

definition key :: "32 word \<Rightarrow> Path \<Rightarrow> KeyDescriptor" where
  "key fp p = \<lparr>MasterFingerprint = fp, DerivationPath = p, KeyData = [], ChainCode = [],
              ParentFingerprint = 0\<rparr>"

text \<open>
  Stand-ins for the other packages: the representation of a key is decided by its
  fingerprint, every descriptor expects \<open>stdPath\<close>, and more than three keys fit no plate.
\<close>

definition X0 :: Externals where
  "X0 = \<lparr>keyString = (\<lambda>k. if MasterFingerprint k = 1 then ''xpubA'' else ''xpubB''),
          descDerivationPath = (\<lambda>d. stdPath),
          engraveError = (\<lambda>d. if length (Keys d) > 3 then Some ErrDescriptorTooLarge else None),
          recoverable = (\<lambda>d. True),
          pathString = (\<lambda>p. ''m'')\<rparr>"

definition desc_of :: "KeyDescriptor list \<Rightarrow> OutputDescriptor" where
  "desc_of ks = \<lparr>Script = 0, Threshold = 2, Sorted = True, Keys = ks\<rparr>"

theorem validateDescriptor_gate_witness:
  "validateDescriptor X0 (desc_of [key 1 stdPath, key 1 stdPath]) = Some (errDuplicateKey 1) \<and>
   validateDescriptor X0 (desc_of [key 1 stdPath, key 2 []]) = Some (errNonstandardDerivation []) \<and>
   validateDescriptor X0 (desc_of [key 1 stdPath, key 2 stdPath, key 1 stdPath, key 2 stdPath])
     = Some (errDuplicateKey 1) \<and>
   validateDescriptor X0 (desc_of [key 1 stdPath, key 2 stdPath]) = None \<and>
   DescriptorScreen_event X0 ctx0
     \<lparr>Descriptor = desc_of [key 1 stdPath, key 1 stdPath], cosigners = None, seed = None,
      ds_warning = None\<rparr>
     \<lparr>Button = Button3, Pressed = False, Rune = 0, Click = True\<rparr>
   = (False, \<lparr>Descriptor = desc_of [key 1 stdPath, key 1 stdPath], cosigners = None, seed = None,
              ds_warning = Some (NewErrorScreen X0 (errDuplicateKey 1))\<rparr>)"
proof -
  note g = validateDescriptor_gate[where X = X0]
  have kp1: "keys_pass X0 d [key 1 stdPath]" for d
    by (simp add: keys_pass_def X0_def key_def stdPath_def)
  have kp2: "keys_pass X0 d [key 1 stdPath, key 2 stdPath]" for d
    by (simp add: keys_pass_def X0_def key_def stdPath_def)
  have a: "validateDescriptor X0 (desc_of [key 1 stdPath, key 1 stdPath]) = Some (errDuplicateKey 1)"
    using g[of "desc_of [key 1 stdPath, key 1 stdPath]", THEN conjunct1, rule_format,
        of "[key 1 stdPath]" "key 1 stdPath" "[]"] kp1
    by (simp add: desc_of_def X0_def key_def)
  have b: "validateDescriptor X0 (desc_of [key 1 stdPath, key 2 []]) = Some (errNonstandardDerivation [])"
    using g[of "desc_of [key 1 stdPath, key 2 []]", THEN conjunct2, THEN conjunct1, rule_format,
        of "[key 1 stdPath]" "key 2 []" "[]"] kp1
    by (simp add: desc_of_def X0_def key_def stdPath_def)
  have c: "validateDescriptor X0 (desc_of [key 1 stdPath, key 2 stdPath, key 1 stdPath, key 2 stdPath])
     = Some (errDuplicateKey 1)"
    using g[of "desc_of [key 1 stdPath, key 2 stdPath, key 1 stdPath, key 2 stdPath]",
        THEN conjunct1, rule_format,
        of "[key 1 stdPath, key 2 stdPath]" "key 1 stdPath" "[key 2 stdPath]"] kp2
    by (simp add: desc_of_def X0_def key_def)
  have d: "validateDescriptor X0 (desc_of [key 1 stdPath, key 2 stdPath]) = None"
    using g[of "desc_of [key 1 stdPath, key 2 stdPath]", THEN conjunct2, THEN conjunct2,
        THEN conjunct2, THEN conjunct1] kp2
    by (simp add: desc_of_def X0_def)
  have e: "DescriptorScreen_event X0 ctx0
     \<lparr>Descriptor = desc_of [key 1 stdPath, key 1 stdPath], cosigners = None, seed = None,
      ds_warning = None\<rparr>
     \<lparr>Button = Button3, Pressed = False, Rune = 0, Click = True\<rparr>
   = (False, \<lparr>Descriptor = desc_of [key 1 stdPath, key 1 stdPath], cosigners = None, seed = None,
              ds_warning = Some (NewErrorScreen X0 (errDuplicateKey 1))\<rparr>)"
    using g[of _ "\<lparr>Button = Button3, Pressed = False, Rune = 0, Click = True\<rparr>" ctx0
        "\<lparr>Descriptor = desc_of [key 1 stdPath, key 1 stdPath], cosigners = None, seed = None,
          ds_warning = None\<rparr>", THEN conjunct2, THEN conjunct2, THEN conjunct2, THEN conjunct2,
        THEN conjunct1] a
    by simp
  show ?thesis using a b c d e by simp
qed

text \<open>
  The claim as stated fails: a descriptor with the same key twice, whose keys do not have
  the expected path, gets the non-standard-derivation error, not the duplicate-key error.
\<close>

theorem validateDescriptor_duplicate_counterexample:
  "keyString X0 (Keys (desc_of [key 1 [], key 1 []]) ! 0)
     = keyString X0 (Keys (desc_of [key 1 [], key 1 []]) ! 1) \<and>
   validateDescriptor X0 (desc_of [key 1 [], key 1 []]) = Some (errNonstandardDerivation [])"
  by (simp add: validateDescriptor_def desc_of_def X0_def key_def stdPath_def Let_def)


section \<open>Scanned payloads (C5)\<close>

definition one_message :: "('d \<Rightarrow> string set) \<Rightarrow> (string \<Rightarrow> 'm) \<Rightarrow> 'd \<Rightarrow> bool" where
  "one_message frags msg d \<longleftrightarrow> (\<forall>f\<in>frags d. \<forall>g\<in>frags d. msg f = msg g)"

definition decoder_contract :: "('d, 'v) URExt \<Rightarrow> ('d \<Rightarrow> string set) \<Rightarrow> (string \<Rightarrow> 'm) \<Rightarrow> bool" where
  "decoder_contract U frags msg \<longleftrightarrow>
     frags (ur_empty U) = {} \<and>
     (\<forall>d f d'. ur_Add U d f = (False, d') \<longrightarrow>
        frags d' \<subseteq> insert f (frags d) \<and> (\<forall>g\<in>frags d. msg g = msg f)) \<and>
     (\<forall>d f d'. ur_Add U d f = (True, d') \<longrightarrow> frags d' \<subseteq> frags d)"

definition fed :: "('d, 'v) URExt \<Rightarrow> 'd \<Rightarrow> string \<Rightarrow> 'd" where
  "fed U dec uqr = (if fst (ur_Add U dec uqr) then snd (ur_Add U (ur_empty U) uqr)
                    else snd (ur_Add U dec uqr))"

lemma parseQR_raw:
  "\<not> prefix ''UR:'' (ToUpper qr) \<Longrightarrow> parseQR U dec qr = (Some (Raw qr), ur_empty U)"
  by (simp add: parseQR_def Let_def)

definition completed :: "('d, 'v) URExt \<Rightarrow> 'd \<Rightarrow> 'v scanned option \<times> 'd" where
  "completed U d2 =
     (case ur_Result U d2 of
        (typ, enc, rerr) \<Rightarrow>
          if rerr then (None, ur_empty U)
          else case enc of
                 None \<Rightarrow> (None, d2)
               | Some payload \<Rightarrow>
                   (case ur_Parse U typ payload of
                      None \<Rightarrow> (None, ur_empty U)
                    | Some v \<Rightarrow> (Some (Parsed v), ur_empty U)))"

lemma parseQR_ur:
  assumes p: "prefix ''UR:'' (ToUpper qr)"
  shows "parseQR U dec qr = completed U (fed U dec (ToUpper qr))"
proof -
  obtain err d1 where a: "ur_Add U dec (ToUpper qr) = (err, d1)"
    by (cases "ur_Add U dec (ToUpper qr)")
  then have f: "fed U dec (ToUpper qr) = (if err then snd (ur_Add U (ur_empty U) (ToUpper qr)) else d1)"
    by (simp add: fed_def)
  show ?thesis
    unfolding f completed_def using p a by (simp add: parseQR_def Let_def split: prod.splits)
qed

lemma fed_incompatible:
  "fst (ur_Add U dec uqr) \<Longrightarrow> fed U dec uqr = fed U (ur_empty U) uqr"
  by (simp add: fed_def)

lemma fed_one_message:
  assumes c: "decoder_contract U frags msg" and o: "one_message frags msg dec"
  shows "one_message frags msg (fed U dec uqr)"
proof (cases "ur_Add U dec uqr")
  case (Pair err d1)
  obtain err0 d0 where e: "ur_Add U (ur_empty U) uqr = (err0, d0)"
    by (cases "ur_Add U (ur_empty U) uqr")
  from c have e0: "frags (ur_empty U) = {}"
    and ok: "\<And>d f d'. ur_Add U d f = (False, d') \<Longrightarrow> frags d' \<subseteq> insert f (frags d)"
    and bad: "\<And>d f d'. ur_Add U d f = (True, d') \<Longrightarrow> frags d' \<subseteq> frags d"
    and same: "\<And>d f d' g. ur_Add U d f = (False, d') \<Longrightarrow> g \<in> frags d \<Longrightarrow> msg g = msg f"
    unfolding decoder_contract_def by blast+
  have d0: "frags d0 \<subseteq> {uqr}"
    using ok[of "ur_empty U" uqr d0] bad[of "ur_empty U" uqr d0] e e0 by (cases err0) auto
  show ?thesis
  proof (cases err)
    case True
    then have "fed U dec uqr = d0" using Pair e by (simp add: fed_def)
    then show ?thesis using d0 by (auto simp: one_message_def)
  next
    case False
    then have f: "fed U dec uqr = d1" using Pair by (simp add: fed_def)
    from Pair False have a: "ur_Add U dec uqr = (False, d1)" by simp
    have "frags d1 \<subseteq> insert uqr (frags dec)" "\<forall>g\<in>frags dec. msg g = msg uqr"
      using ok[OF a] same[OF a] by auto
    then show ?thesis using o unfolding f one_message_def
      by (metis insert_iff subsetD)
  qed
qed

lemma empty_one_message: "decoder_contract U frags msg \<Longrightarrow> one_message frags msg (ur_empty U)"
  by (simp add: decoder_contract_def one_message_def)

lemma parseQR_one_message:
  assumes c: "decoder_contract U frags msg" and o: "one_message frags msg dec"
  shows "one_message frags msg (snd (parseQR U dec qr))"
proof (cases "prefix ''UR:'' (ToUpper qr)")
  case False
  then show ?thesis using empty_one_message[OF c] by (simp add: parseQR_raw)
next
  case True
  show ?thesis using empty_one_message[OF c] fed_one_message[OF c o, of "ToUpper qr"]
    by (simp add: parseQR_ur[OF True] completed_def split: prod.splits option.splits)
qed

text \<open>
  C5. A payload whose upper-cased text does not start with "UR:" is returned at once, as it
  is. Otherwise it is fed to the decoder (\<open>fed\<close> is the decoder after that): a rejected
  fragment is added again to a fresh decoder, so the call goes on exactly as on an empty
  accumulator. A completed result that parses is returned, one that does not parse is
  dropped and nothing is returned (the scan goes on), and an incomplete one keeps the
  decoder. With a decoder that rejects a fragment of another message than the ones it
  holds, the accumulator never holds fragments of two messages.
\<close>

theorem parseQR_contract:
  "(\<not> prefix ''UR:'' (ToUpper qr) \<longrightarrow> parseQR U dec qr = (Some (Raw qr), ur_empty U)) \<and>
   (prefix ''UR:'' (ToUpper qr) \<and> fst (ur_Add U dec (ToUpper qr)) \<longrightarrow>
      fed U dec (ToUpper qr) = snd (ur_Add U (ur_empty U) (ToUpper qr)) \<and>
      parseQR U dec qr = parseQR U (ur_empty U) qr) \<and>
   (prefix ''UR:'' (ToUpper qr) \<and> \<not> fst (ur_Add U dec (ToUpper qr)) \<longrightarrow>
      fed U dec (ToUpper qr) = snd (ur_Add U dec (ToUpper qr))) \<and>
   (prefix ''UR:'' (ToUpper qr) \<and> ur_Result U (fed U dec (ToUpper qr)) = (typ, Some payload, False) \<longrightarrow>
      parseQR U dec qr =
        (case ur_Parse U typ payload of
           Some v \<Rightarrow> (Some (Parsed v), ur_empty U)
         | None \<Rightarrow> (None, ur_empty U))) \<and>
   (prefix ''UR:'' (ToUpper qr) \<and> ur_Result U (fed U dec (ToUpper qr)) = (typ, None, False) \<longrightarrow>
      parseQR U dec qr = (None, fed U dec (ToUpper qr))) \<and>
   (decoder_contract U frags msg \<and> one_message frags msg dec \<longrightarrow>
      one_message frags msg (snd (parseQR U dec qr)))"
proof (intro conjI impI)
  assume "\<not> prefix ''UR:'' (ToUpper qr)"
  then show "parseQR U dec qr = (Some (Raw qr), ur_empty U)" by (rule parseQR_raw)
next
  assume a: "prefix ''UR:'' (ToUpper qr) \<and> fst (ur_Add U dec (ToUpper qr))"
  then show "fed U dec (ToUpper qr) = snd (ur_Add U (ur_empty U) (ToUpper qr))"
    by (simp add: fed_def)
  have "fed U (ur_empty U) (ToUpper qr) = fed U dec (ToUpper qr)"
    using a by (simp add: fed_def)
  then show "parseQR U dec qr = parseQR U (ur_empty U) qr"
    using a by (simp add: parseQR_ur)
next
  assume "prefix ''UR:'' (ToUpper qr) \<and> \<not> fst (ur_Add U dec (ToUpper qr))"
  then show "fed U dec (ToUpper qr) = snd (ur_Add U dec (ToUpper qr))" by (simp add: fed_def)
next
  assume "prefix ''UR:'' (ToUpper qr) \<and> ur_Result U (fed U dec (ToUpper qr)) = (typ, Some payload, False)"
  then show "parseQR U dec qr =
        (case ur_Parse U typ payload of
           Some v \<Rightarrow> (Some (Parsed v), ur_empty U)
         | None \<Rightarrow> (None, ur_empty U))"
    by (simp add: parseQR_ur completed_def split: option.splits)
next
  assume "prefix ''UR:'' (ToUpper qr) \<and> ur_Result U (fed U dec (ToUpper qr)) = (typ, None, False)"
  then show "parseQR U dec qr = (None, fed U dec (ToUpper qr))"
    by (simp add: parseQR_ur completed_def)
next
  assume "decoder_contract U frags msg \<and> one_message frags msg dec"
  then show "one_message frags msg (snd (parseQR U dec qr))"
    by (simp add: parseQR_one_message)
qed


text \<open>A small decoder to run \<^verbatim>\<open>parseQR\<close> on: the fourth character of a fragment names its message.\<close>

definition toy_msg :: "string \<Rightarrow> char" where
  "toy_msg f = f ! 3"

definition toyUR :: "(string list, string) URExt" where
  "toyUR = \<lparr>ur_empty = [],
            ur_Add = (\<lambda>d f. if \<forall>g\<in>set d. toy_msg g = toy_msg f then (False, d @ [f]) else (True, d)),
            ur_Result = (\<lambda>d. (''bytes'', if length d \<ge> 2 then Some (concat d) else None, False)),
            ur_Parse = (\<lambda>t p. if t = ''bytes'' then Some p else None)\<rparr>"

lemma toy_contract: "decoder_contract toyUR set toy_msg"
  by (auto simp: decoder_contract_def toyUR_def split: if_splits)

theorem parseQR_contract_witness:
  "parseQR toyUR [''UR:A1''] ''hello'' = (Some (Raw ''hello''), []) \<and>
   parseQR toyUR [''UR:A1''] ''ur:b1'' = (None, [''UR:B1'']) \<and>
   parseQR toyUR [''UR:A1''] ''ur:a2'' = (Some (Parsed ''UR:A1UR:A2''), []) \<and>
   one_message set toy_msg (snd (parseQR toyUR [''UR:A1''] ''ur:b1''))"
proof -
  have o: "one_message set toy_msg [''UR:A1'']" by (simp add: one_message_def)
  have u: "ToUpper ''hello'' = ''HELLO''" "ToUpper ''ur:b1'' = ''UR:B1''" "ToUpper ''ur:a2'' = ''UR:A2''"
    by code_simp+
  have f1: "fed toyUR [''UR:A1''] ''UR:B1'' = [''UR:B1'']"
    and f2: "fed toyUR [''UR:A1''] ''UR:A2'' = [''UR:A1'', ''UR:A2'']"
    by (simp_all add: fed_def toyUR_def toy_msg_def)
  note t = parseQR_contract[where U = toyUR and dec = "[''UR:A1'']" and frags = set and msg = toy_msg]
  have a: "parseQR toyUR [''UR:A1''] ''hello'' = (Some (Raw ''hello''), [])"
    using t[of "''hello''"] u by (simp add: toyUR_def)
  have b: "parseQR toyUR [''UR:A1''] ''ur:b1'' = (None, [''UR:B1''])"
    using t[of "''ur:b1''" "''bytes''"] u f1 by (simp add: toyUR_def)
  have c: "parseQR toyUR [''UR:A1''] ''ur:a2'' = (Some (Parsed ''UR:A1UR:A2''), [])"
    using t[of "''ur:a2''" "''bytes''" "''UR:A1UR:A2''"] u f2 by (simp add: toyUR_def)
  have d: "one_message set toy_msg (snd (parseQR toyUR [''UR:A1''] ''ur:b1''))"
    using t[of "''ur:b1''"] toy_contract o by simp
  show ?thesis using a b c d by simp
qed


section \<open>Cancelling an engraving (C1)\<close>

text \<open>
  C1 does not hold of the code. The screen below is engraving side 0 on device 1 (the worker
  and the feeder goroutines are running) and shows the cancel dialog, whose hold started at
  time 0. At the deadline \<^verbatim>\<open>Layout\<close> returns \<^verbatim>\<open>true\<close> and \<^verbatim>\<open>close\<close> starts a goroutine that
  closes the cancel channel and waits for the worker for five seconds; nothing in it
  closes the device. The device is closed only by the worker, after \<^verbatim>\<open>mjolnir.Engrave\<close>
  has returned: a worker that does not acknowledge the cancellation leaves it open.
\<close>

definition engraving_screen :: EngraveScreen where
  "engraving_screen = (NewEngraveScreen ctx0 1)
     \<lparr>step := 10,
      engrave := engraveState0\<lparr>dev := Some 1, cancel := True, progress := True, errs := True\<rparr>,
      es_cancel := Some (cancelDialog\<lparr>confirm := Start 0 confirmDelay\<rparr>)\<rparr>"

lemma idx10: "index (instructions engraving_screen) (step engraving_screen) = Some \<lparr>Type = EngraveInstruction, Side = 0\<rparr>"
  by (simp add: engraving_screen_def NewEngraveScreen_def ctx0_def index_def EngraveFirstSideA_def
      EngraveSuccess_def prepare_def nth_append)

lemma iter_cancel:
  "Layout_iter \<lparr>Now = confirmDelay, Engraver = None\<rparr> (engraving_screen, ctx0, worker1)
   = Done (engraving_screen\<lparr>engrave := engraveState0\<rparr>, ctx0, worker1 @ [[CloseCancel, AwaitErrs 5000000000]])"
  by (simp add: Layout_iter_def idx10 Let_def)
     (simp add: engraving_screen_def NewEngraveScreen_def Layout_dryRun_def ConfirmWarningScreen_Layout_def
       cancelDialog_def ctx0_def Progress_def Start_def ConfirmDelay0_def close_def teardown_def engraveState0_def)

theorem cancel_leaves_device_open:
  "Layout \<lparr>Now = confirmDelay, Engraver = None\<rparr> [] (engraving_screen, ctx0, worker1)
   = Inr (True, (engraving_screen\<lparr>engrave := engraveState0\<rparr>, ctx0,
                 worker1 @ [[CloseCancel, AwaitErrs 5000000000]])) \<and>
   \<not> device_closed False 1 (worker1 @ [[CloseCancel, AwaitErrs 5000000000]]) \<and>
   device_closed True 1 (worker1 @ [[CloseCancel, AwaitErrs 5000000000]])"
proof -
  have "Layout \<lparr>Now = confirmDelay, Engraver = None\<rparr> [] (engraving_screen, ctx0, worker1)
   = Inr (True, (engraving_screen\<lparr>engrave := engraveState0\<rparr>, ctx0,
                 worker1 @ [[CloseCancel, AwaitErrs 5000000000]]))"
    by (simp add: Layout_def Layout_loop.simps[of _ "(engraving_screen, ctx0, worker1)"] iter_cancel)
  then show ?thesis by (simp add: device_closed_def worker1_def)
qed


section \<open>Idle timer and screensaver (C8)\<close>

definition real_events :: "input_Event list \<Rightarrow> input_Event list" where
  "real_events btns = filter (\<lambda>e. Button e \<noteq> Screenshot) btns"

lemma Events_single_append: "Events now (Events now c [e]) es = Events now c (e # es)"
  by simp

lemma Frame_buttons_eat:
  "snd (Frame_buttons now btns (shot, eat, c)) =
     (eat \<and> real_events btns = [],
      Events now c (if eat then tl (real_events btns) else real_events btns))"
proof (induction btns arbitrary: shot eat c)
  case Nil
  then show ?case by (simp add: real_events_def)
next
  case (Cons e es)
  show ?case
  proof (cases "Button e = Screenshot")
    case True
    then show ?thesis using Cons.IH[of True eat c] by (simp add: real_events_def)
  next
    case False
    show ?thesis
    proof (cases eat)
      case True
      then show ?thesis using False Cons.IH[of shot False c] by (simp add: real_events_def)
    next
      case F: False
      then show ?thesis using False Cons.IH[of shot False "Events now c [e]"]
        by (simp add: real_events_def)
    qed
  qed
qed

lemma foldl_or: "foldl (\<lambda>pressed b. pressed \<or> b) acc bs \<longleftrightarrow> acc \<or> (\<exists>b\<in>set bs. b)"
  by (induction bs arbitrary: acc) auto

lemma Frame_input_idle:
  "Frame_input now w btns a = Some (a', shot) \<Longrightarrow>
   idle_armed a' \<longleftrightarrow> (\<forall>b\<in>set (Buttons (app_ctx a')). \<not> b)"
  by (auto simp: Frame_input_def Let_def foldl_or split: option.splits prod.splits)

lemma Frame_idle:
  "Frame_input now w btns a = Some (a', shot) \<Longrightarrow>
   \<exists>a''. Frame now layout w btns a = Some a'' \<and> idle_armed a'' = idle_armed a' \<and>
         eatButton a'' = eatButton a' \<and> app_ctx a'' = layout (app_ctx a')"
  by (simp add: Frame_def)

lemma Frame_input_timeout:
  "idle_armed a \<Longrightarrow>
   \<exists>a' shot. Frame_input now IdleTimeout btns a = Some (a', shot) \<and>
        saver_runs a' = saver_runs a + 1 \<and>
        eatButton a' = (real_events btns = []) \<and>
        events (app_ctx a') = events (Repeat now (Events now (app_ctx a) (tl (real_events btns))))"
proof -
  assume a: "idle_armed a"
  obtain shot eat c1 where f: "Frame_buttons now btns (False, True, app_ctx a) = (shot, eat, c1)"
    by (cases "Frame_buttons now btns (False, True, app_ctx a)")
  from Frame_buttons_eat[of now btns False True "app_ctx a"] f
  have e: "eat = (real_events btns = [])" "c1 = Events now (app_ctx a) (tl (real_events btns))"
    by simp_all
  show ?thesis using a f e by (simp add: Frame_input_def Let_def)
qed

lemma Frame_input_not_armed: "\<not> idle_armed a \<Longrightarrow> Frame_input now IdleTimeout btns a = None"
  by (simp add: Frame_input_def)

text \<open>
  C8, as the code has it. After the input of a frame has been handled, the idle timer is
  armed exactly when no entry of the button array is set, and the screen's \<^verbatim>\<open>Layout\<close> does
  not change that. The idle branch can be taken only with the timer armed; it runs the
  screensaver and sets the flag that discards an event. With the flag set, the first event
  that is not a screenshot event is dropped and the flag is cleared; every later event is
  submitted as it would be without the flag. Screenshot events are never submitted and do
  not clear the flag.
\<close>

theorem Frame_idle_and_eat:
  "(Frame_input now w btns a = Some (a', shot) \<longrightarrow>
      (idle_armed a' \<longleftrightarrow> (\<forall>b\<in>set (Buttons (app_ctx a')). \<not> b)) \<and>
      (\<exists>a''. Frame now layout w btns a = Some a'' \<and> idle_armed a'' = idle_armed a' \<and>
         eatButton a'' = eatButton a' \<and> app_ctx a'' = layout (app_ctx a'))) \<and>
   (\<not> idle_armed a \<longrightarrow> Frame_input now IdleTimeout btns a = None) \<and>
   (idle_armed a \<longrightarrow>
      (\<exists>a' shot. Frame_input now IdleTimeout btns a = Some (a', shot) \<and>
        saver_runs a' = saver_runs a + 1 \<and>
        eatButton a' = (real_events btns = []) \<and>
        events (app_ctx a') = events (Repeat now (Events now (app_ctx a) (tl (real_events btns)))))) \<and>
   snd (Frame_buttons now btns (s, eat, c)) =
     (eat \<and> real_events btns = [],
      Events now c (if eat then tl (real_events btns) else real_events btns))"
  using Frame_input_idle[of now w btns a a' shot] Frame_idle[of now w btns a a' shot layout]
    Frame_input_timeout[of a now btns] Frame_input_not_armed[of a now btns]
    Frame_buttons_eat[of now btns s eat c]
  by (intro conjI impI) assumption+

definition app0 :: App where
  "app0 = \<lparr>app_ctx = ctx0, Debug = False, eatButton = False, idle_armed = True, saver_runs = 0,
           screenshotCounter = 0\<rparr>"

definition press :: "button \<Rightarrow> input_Event" where
  "press b = \<lparr>Button = b, Pressed = True, Rune = 0\<rparr>"

definition release :: "button \<Rightarrow> input_Event" where
  "release b = \<lparr>Button = b, Pressed = False, Rune = 0\<rparr>"

theorem Frame_idle_and_eat_witness:
  "(\<exists>a' shot. Frame_input 0 IdleTimeout [] app0 = Some (a', shot) \<and> saver_runs a' = 1 \<and>
       eatButton a' \<and> idle_armed a') \<and>
   events (snd (snd (Frame_buttons 0 [press Button3, release Button3, press Button1]
                       (False, True, ctx0))))
     = [\<lparr>Button = Button3, Pressed = False, Rune = 0, Click = False\<rparr>,
        \<lparr>Button = Button1, Pressed = True, Rune = 0, Click = False\<rparr>] \<and>
   \<not> fst (snd (Frame_buttons 0 [press Button3, release Button3, press Button1] (False, True, ctx0)))"
proof -
  have r: "real_events [] = []"
    "real_events [press Button3, release Button3, press Button1]
       = [press Button3, release Button3, press Button1]"
    by (simp_all add: real_events_def press_def release_def button_defs)
  have a: "idle_armed app0" by (simp add: app0_def)
  have 1: "\<exists>a' shot. Frame_input 0 IdleTimeout [] app0 = Some (a', shot) \<and> saver_runs a' = 1 \<and>
       eatButton a' \<and> idle_armed a'"
  proof -
    note t = Frame_idle_and_eat[where a = app0 and now = 0 and btns = "[]" and w = IdleTimeout
        and layout = id and s = False and eat = True and c = ctx0]
    from t[THEN conjunct2, THEN conjunct2, THEN conjunct1] a r
    obtain a' shot where f: "Frame_input 0 IdleTimeout [] app0 = Some (a', shot)"
      "saver_runs a' = saver_runs app0 + 1" "eatButton a'"
      by auto
    have "app_ctx a' = Repeat 0 ctx0" using f(1)
      by (auto simp: Frame_input_def app0_def Let_def)
    then have "\<forall>b\<in>set (Buttons (app_ctx a')). \<not> b"
      by (simp add: Repeat_def Repeat1_def ctx0_def upt_rec numeral_nat)
    with t[where a' = a' and shot = shot, THEN conjunct1] f(1)
    have "idle_armed a'" by simp
    with f show ?thesis by (auto simp: app0_def)
  qed
  have 2: "snd (Frame_buttons 0 [press Button3, release Button3, press Button1] (False, True, ctx0))
      = (False, Events 0 ctx0 [release Button3, press Button1])"
    using Frame_idle_and_eat[where now = 0 and btns = "[press Button3, release Button3, press Button1]"
        and s = False and eat = True and c = ctx0, THEN conjunct2, THEN conjunct2, THEN conjunct2] r
    by simp
  show ?thesis using 1 2
    by (simp add: Events_def Events1_def ctx0_def press_def release_def button_defs mkEvent_def
        isRepeatButton_def Let_def)
qed

text \<open>
  The claim as stated fails when the first event after the screensaver is a screenshot
  event: the press that follows it is the one discarded.
\<close>

theorem Frame_screenshot_counterexample:
  "Frame_buttons 0 [press Screenshot, press Button1] (False, True, ctx0) = (True, False, ctx0) \<and>
   events (snd (snd (Frame_buttons 0 [press Button1] (False, False, ctx0))))
     = [\<lparr>Button = Button1, Pressed = True, Rune = 0, Click = False\<rparr>]"
  by (simp add: Events_def Events1_def ctx0_def press_def button_defs mkEvent_def
        isRepeatButton_def Let_def)


section \<open>The step cursor stays inside the instruction list (C9)\<close>

text \<open>
  The shape of an instruction list that the screen relies on: an engrave instruction
  comes right after a connect instruction, and only there. \<open>prev\<close> is the type of the
  instruction before the list.
\<close>

fun wf_from :: "InstructionType \<Rightarrow> Instruction list \<Rightarrow> bool" where
  "wf_from prev [] = (prev \<noteq> ConnectInstruction)"
| "wf_from prev (i # is) =
     ((prev = ConnectInstruction \<longleftrightarrow> Type i = EngraveInstruction) \<and> wf_from (Type i) is)"

definition wf_instructions :: "Instruction list \<Rightarrow> bool" where
  "wf_instructions ins = wf_from PrepareInstruction ins"

lemma wf_from_nth:
  "wf_from p ins \<Longrightarrow> k < length ins \<Longrightarrow>
   (Type (ins ! k) = EngraveInstruction \<longleftrightarrow> (if k = 0 then p else Type (ins ! (k - 1))) = ConnectInstruction) \<and>
   (Type (ins ! k) = ConnectInstruction \<longrightarrow> Suc k < length ins)"
proof (induction ins arbitrary: p k)
  case Nil
  then show ?case by simp
next
  case (Cons i "is")
  show ?case
  proof (cases k)
    case 0
    then show ?thesis using Cons.prems by (cases "is") auto
  next
    case (Suc j)
    then have j: "j < length is" using Cons.prems by simp
    from Cons.prems have w: "wf_from (Type i) is" by simp
    from Cons.IH[OF w j] show ?thesis using Suc by (cases j) auto
  qed
qed

lemma wf_connect:
  assumes "wf_instructions ins" "k < length ins" "Type (ins ! k) = ConnectInstruction"
  shows "Suc k < length ins \<and> Type (ins ! Suc k) = EngraveInstruction"
proof -
  from wf_from_nth[OF assms(1)[unfolded wf_instructions_def] assms(2)] assms(3)
  have s: "Suc k < length ins" by simp
  from wf_from_nth[OF assms(1)[unfolded wf_instructions_def] s] assms(3)
  show ?thesis using s by simp
qed

lemma wf_engrave:
  assumes "wf_instructions ins" "k < length ins" "Type (ins ! k) = EngraveInstruction"
  shows "0 < k \<and> Type (ins ! (k - 1)) = ConnectInstruction"
  using wf_from_nth[OF assms(1)[unfolded wf_instructions_def] assms(2)] assms(3)
  by (cases k) auto

lemma wf_New: "wf_instructions (instructions (NewEngraveScreen ctx nsides))"
  by (simp add: wf_instructions_def NewEngraveScreen_def EngraveFirstSideA_def EngraveSideA_def
      EngraveSideB_def EngraveSuccess_def prepare_def numeral_nat)


text \<open>
  What holds of a screen between two calls of \<^verbatim>\<open>Layout\<close>: the step is an index of the
  list; while the connect hold runs, a connect instruction lies at or after the step; a
  worker runs only on an engrave instruction and with the hold cleared; and a device
  handle exists only while a worker runs.
\<close>

definition step_inv' :: "Instruction list \<Rightarrow> int \<Rightarrow> bool \<Rightarrow> bool \<Rightarrow> bool \<Rightarrow> bool" where
  "step_inv' ins st run er dv \<longleftrightarrow>
     wf_instructions ins \<and> 0 \<le> st \<and> st < int (length ins) \<and>
     (run \<longrightarrow> (\<exists>k. nat st \<le> k \<and> k < length ins \<and> Type (ins ! k) = ConnectInstruction)) \<and>
     (er \<longrightarrow> Type (ins ! nat st) = EngraveInstruction \<and> \<not> run) \<and>
     (dv \<longrightarrow> er)"

definition step_inv :: "EngraveScreen \<Rightarrow> bool" where
  "step_inv s = step_inv' (instructions s) (step s) (Running (es_confirm s))
                  (errs (engrave s)) (dev (engrave s) \<noteq> None)"

lemma step_inv_New: "step_inv (NewEngraveScreen ctx nsides)"
proof -
  have len: "0 < length (instructions (NewEngraveScreen ctx nsides))"
    by (simp add: NewEngraveScreen_def EngraveSuccess_def)
  have sel: "step (NewEngraveScreen ctx nsides) = 0"
    "es_confirm (NewEngraveScreen ctx nsides) = ConfirmDelay0"
    "engrave (NewEngraveScreen ctx nsides) = engraveState0"
    by (simp_all add: NewEngraveScreen_def)
  show ?thesis unfolding step_inv_def step_inv'_def sel
    using len wf_New[of ctx nsides]
    by (simp add: Running_def ConfirmDelay0_def engraveState0_def)
qed

lemma index_Some: "0 \<le> i \<Longrightarrow> i < int (length xs) \<Longrightarrow> index xs i = Some (xs ! nat i)"
  by (simp add: index_def)

lemma Running_ConfirmDelay0 [simp]: "\<not> Running ConfirmDelay0"
  by (simp add: Running_def ConfirmDelay0_def)

lemma Running_Start [simp]: "Running (Start now d)"
  by (simp add: Running_def Start_def)

lemma Progress_1_Running: "Progress now c = 1 \<Longrightarrow> Running c"
  by (auto simp: Progress_def Running_def split: option.splits)

text \<open>\<^verbatim>\<open>moveStep\<close> without a running worker.\<close>

lemma moveStep_ok:
  assumes inv: "step_inv s" and ne: "\<not> errs (engrave s)"
  shows "case moveStep pl s of
           Inl p \<Rightarrow> p = SideIndex
         | Inr (b, s', g) \<Rightarrow>
             (if b then step s' = int (length (instructions s')) \<and> \<not> Running (es_confirm s)
              else step_inv (s'\<lparr>es_confirm := ConfirmDelay0\<rparr>) \<and>
                   (Type (instructions s ! nat (step s)) \<noteq> ConnectInstruction \<longrightarrow> step_inv s'))"
proof -
  let ?ins = "instructions s"
  let ?j = "nat (step s)"
  from inv have wf: "wf_instructions ?ins" and r: "0 \<le> step s" "step s < int (length ?ins)"
    and run: "Running (es_confirm s) \<Longrightarrow> \<exists>k. ?j \<le> k \<and> k < length ?ins \<and> Type (?ins ! k) = ConnectInstruction"
    and nd: "dev (engrave s) = None"
    using ne by (auto simp: step_inv_def step_inv'_def)
  have idx: "index ?ins (step s) = Some (?ins ! ?j)" using r by (rule index_Some)
  have j: "?j < length ?ins" using r by simp
  show ?thesis
  proof (cases "Type (?ins ! ?j) = ConnectInstruction")
    case True
    from wf_connect[OF wf j True] have n: "Suc ?j < length ?ins"
      "Type (?ins ! Suc ?j) = EngraveInstruction" by simp_all
    have n': "step s + 1 < int (length ?ins)" "nat (step s + 1) = Suc ?j" "step s + 1 \<noteq> int (length ?ins)"
      using n r by simp_all
    show ?thesis
    proof (cases "Engraver pl")
      case None
      then show ?thesis using idx True nd inv
        by (simp add: moveStep_def moveStep_connect_def step_inv_def step_inv'_def)
    next
      case (Some d)
      have idx2: "index ?ins (step s + 1) = Some (?ins ! Suc ?j)"
        using index_Some[of "step s + 1" ?ins] n' r by simp
      show ?thesis using idx True nd Some idx2 n n' wf r
        by (simp add: moveStep_def moveStep_connect_def Let_def step_inv_def step_inv'_def)
    qed
  next
    case False
    show ?thesis
    proof (cases "step s + 1 = int (length ?ins)")
      case True
      have "\<not> Running (es_confirm s)"
      proof
        assume "Running (es_confirm s)"
        from run[OF this] obtain k where k: "?j \<le> k" "k < length ?ins" "Type (?ins ! k) = ConnectInstruction"
          by blast
        with False have "k \<noteq> ?j" by auto
        with k True r show False by simp
      qed
      then show ?thesis using idx False True
        by (simp add: moveStep_def moveStep_connect_def Let_def close_def)
    next
      case F2: False
      then have n': "step s + 1 < int (length ?ins)" "nat (step s + 1) = Suc ?j" "Suc ?j < length ?ins"
        using r by simp_all
      have idx2: "index ?ins (step s + 1) = Some (?ins ! Suc ?j)"
        using index_Some[of "step s + 1" ?ins] n' r by simp
      have ne2: "Type (?ins ! Suc ?j) \<noteq> EngraveInstruction"
      proof
        assume "Type (?ins ! Suc ?j) = EngraveInstruction"
        from wf_engrave[OF wf n'(3) this] False show False by simp
      qed
      have run': "Running (es_confirm s) \<Longrightarrow>
          \<exists>k. Suc ?j \<le> k \<and> k < length ?ins \<and> Type (?ins ! k) = ConnectInstruction"
      proof -
        assume "Running (es_confirm s)"
        from run[OF this] obtain k where k: "?j \<le> k" "k < length ?ins" "Type (?ins ! k) = ConnectInstruction"
          by blast
        with False have "k \<noteq> ?j" by auto
        with k have "Suc ?j \<le> k" by simp
        with k show ?thesis by blast
      qed
      show ?thesis using idx False F2 idx2 ne2 n' wf r ne nd run'
        by (simp add: moveStep_def moveStep_connect_def Let_def step_inv_def step_inv'_def)
    qed
  qed
qed

lemma moveStep_instructions:
  "moveStep pl s = Inr (b, s', g) \<Longrightarrow> instructions s' = instructions s"
  by (auto simp: moveStep_def moveStep_connect_def Let_def close_def
      split: option.splits if_splits connect_result.splits)


text \<open>The channel loop keeps the invariant, or ends the session at the end of the list.\<close>

lemma Layout_recv_ok:
  "step_inv s \<Longrightarrow> Layout_recv inbox (s, ctx) = (d, s', ctx') \<Longrightarrow>
   instructions s' = instructions s \<and>
   (d \<longrightarrow> 0 \<le> step s' \<and> step s' \<le> int (length (instructions s'))) \<and>
   (\<not> d \<longrightarrow> step_inv s')"
proof (induction inbox "(s, ctx)" arbitrary: s ctx rule: Layout_recv.induct)
  case (1 s ctx)
  then show ?case by simp
next
  case (2 p ms s ctx)
  show ?case
  proof (cases "progress (engrave s)")
    case True
    let ?s1 = "s\<lparr>engrave := (engrave s)\<lparr>lastProgress := p\<rparr>\<rparr>"
    have i: "step_inv ?s1" using "2.prems"(1) by (simp add: step_inv_def)
    from "2.hyps"(1)[OF True i] "2.prems"(2) True show ?thesis by auto
  next
    case False
    from "2.hyps"(2)[OF False "2.prems"(1)] "2.prems"(2) False show ?thesis by auto
  qed
next
  case (3 err ms s ctx)
  show ?case
  proof (cases "errs (engrave s)")
    case False
    from "3.hyps"(1)[OF _ "3.prems"(1)] "3.prems"(2) False show ?thesis by auto
  next
    case True
    from "3.prems"(1) True have r: "0 \<le> step s" "step s < int (length (instructions s))"
      "wf_instructions (instructions s)" "\<not> Running (es_confirm s)"
      by (auto simp: step_inv_def step_inv'_def)
    show ?thesis
    proof (cases err)
      case (Some e)
      let ?s1 = "s\<lparr>engrave := engraveState0\<lparr>warning := Some connLostScreen, fatal := True\<rparr>\<rparr>"
      have i: "step_inv ?s1" using r by (simp add: step_inv_def step_inv'_def)
      from "3.hyps"(3)[OF _ Some i] True "3.prems"(2) Some show ?thesis by auto
    next
      case None
      let ?s1 = "s\<lparr>engrave := engraveState0, step := step s + 1\<rparr>"
      show ?thesis
      proof (cases "step s + 1 = int (length (instructions s))")
        case T: True
        then show ?thesis using True None "3.prems"(2) r by (auto simp: Let_def)
      next
        case F: False
        have i: "step_inv ?s1" using r F by (simp add: step_inv_def step_inv'_def)
        from "3.hyps"(2)[OF _ None refl refl _ i] True F "3.prems"(2) None
        show ?thesis by (auto simp: Let_def)
      qed
    qed
  qed
qed


fun ok_outcome :: "Instruction list \<Rightarrow> outcome \<Rightarrow> bool" where
  "ok_outcome ins (Continue (s, ctx, gs)) = (step_inv s \<and> instructions s = ins)"
| "ok_outcome ins (Break (s, ctx, gs)) = (step_inv s \<and> instructions s = ins)"
| "ok_outcome ins (Done (s, ctx, gs)) =
     (0 \<le> step s \<and> step s \<le> int (length (instructions s)) \<and> instructions s = ins)"
| "ok_outcome ins (Panicked p) = (p = SideIndex)"

lemma step_inv_range: "step_inv s \<Longrightarrow> 0 \<le> step s \<and> step s < int (length (instructions s))"
  by (simp add: step_inv_def step_inv'_def)

lemma step_inv_not_errs:
  "step_inv s \<Longrightarrow> Type (instructions s ! nat (step s)) \<noteq> EngraveInstruction \<or> Running (es_confirm s)
   \<Longrightarrow> \<not> errs (engrave s)"
  by (auto simp: step_inv_def step_inv'_def)

lemma step_inv_back:
  assumes inv: "step_inv s" and p: "0 < step s"
    "Type (instructions s ! nat (step s - 1)) = PrepareInstruction"
  shows "step_inv (s\<lparr>step := step s - 1\<rparr>)"
proof -
  from inv have wf: "wf_instructions (instructions s)"
    and r: "step s < int (length (instructions s))"
    by (simp_all add: step_inv_def step_inv'_def)
  have ne: "\<not> errs (engrave s)"
  proof
    assume "errs (engrave s)"
    with inv have "Type (instructions s ! nat (step s)) = EngraveInstruction"
      by (simp add: step_inv_def step_inv'_def)
    from wf_engrave[OF wf _ this] r p have "Type (instructions s ! (nat (step s) - 1)) = ConnectInstruction"
      by simp
    moreover have "nat (step s) - 1 = nat (step s - 1)" using p by simp
    ultimately show False using p by simp
  qed
  have "\<And>k. nat (step s) \<le> k \<Longrightarrow> nat (step s - 1) \<le> k" by simp
  then show ?thesis using inv ne p r
    unfolding step_inv_def step_inv'_def by (simp del: nat_le_iff) blast
qed

lemma step_inv_Start:
  assumes inv: "step_inv s" and c: "Type (instructions s ! nat (step s)) = ConnectInstruction"
  shows "step_inv (s\<lparr>es_confirm := Start now d\<rparr>)"
proof -
  have ne: "\<not> errs (engrave s)" using step_inv_not_errs[OF inv] c by simp
  from step_inv_range[OF inv] have "nat (step s) < length (instructions s)"
    by (simp add: nat_less_iff)
  then have "\<exists>k. nat (step s) \<le> k \<and> k < length (instructions s) \<and>
      Type (instructions s ! k) = ConnectInstruction"
    using c by blast
  then show ?thesis using inv ne by (simp add: step_inv_def step_inv'_def)
qed

lemma step_inv_clear: "step_inv s \<Longrightarrow> step_inv (s\<lparr>es_confirm := ConfirmDelay0\<rparr>)"
  by (simp add: step_inv_def step_inv'_def)

lemma Layout_event_ok:
  assumes inv: "step_inv s"
    and ins: "ins = instructions s ! nat (step s)"
    and cp: "cp = (step s > 0 \<and> Type (instructions s ! nat (step s - 1)) = PrepareInstruction)"
  shows "ok_outcome (instructions s) (Layout_event pl cp ins (s, ctx, gs))"
proof (cases "Next ctx")
  case None
  then show ?thesis using inv by (simp add: Layout_event_def)
next
  case (Some a)
  then obtain e ctx' where n: "Next ctx = Some (e, ctx')" by (cases a) auto
  consider (b1) "Button e = Button1" | (b2) "Button e = Button2" | (b3) "Button e = Button3"
    | (other) "Button e \<noteq> Button1" "Button e \<noteq> Button2" "Button e \<noteq> Button3"
    by blast
  then show ?thesis
  proof cases
    case b1
    show ?thesis
    proof (cases "Click e \<and> cp")
      case True
      then have "step_inv (s\<lparr>step := step s - 1\<rparr>)" using step_inv_back[OF inv] cp by simp
      then show ?thesis using n b1 True by (simp add: Layout_event_def)
    next
      case False
      have "step_inv (s\<lparr>es_cancel := Some cancelDialog\<rparr>)" using inv by (simp add: step_inv_def)
      then show ?thesis using n b1 False inv by (auto simp: Layout_event_def)
    qed
  next
    case b2
    have "step_inv (s\<lparr>dryRun_timeout := x\<rparr>)" for x using inv by (simp add: step_inv_def)
    then show ?thesis using n b2 by (simp add: Layout_event_def button_defs)
  next
    case b3
    show ?thesis
    proof (cases "Type ins = ConnectInstruction")
      case True
      then show ?thesis using n b3 step_inv_Start[OF inv] step_inv_clear[OF inv] ins
        by (simp add: Layout_event_def button_defs)
    next
      case False
      show ?thesis
      proof (cases "\<not> Click e \<or> Type ins = EngraveInstruction")
        case True
        then show ?thesis using n b3 False inv by (auto simp: Layout_event_def button_defs)
      next
        case F2: False
        have ne: "\<not> errs (engrave s)" using step_inv_not_errs[OF inv] F2 ins by simp
        from moveStep_ok[OF inv ne, of pl] False ins
        show ?thesis using n b3 False F2
          by (auto simp: Layout_event_def button_defs moveStep_instructions
              split: sum.splits prod.splits if_splits)
      qed
    qed
  next
    case other
    then show ?thesis using n inv by (simp add: Layout_event_def)
  qed
qed


lemma Layout_dryRun_inv:
  "Layout_dryRun pl (s, ctx) = (s1, ctx1) \<Longrightarrow>
   step_inv s1 = step_inv s \<and> instructions s1 = instructions s \<and> step s1 = step s \<and>
   engrave s1 = engrave s \<and> es_cancel s1 = es_cancel s"
  by (auto simp: Layout_dryRun_def step_inv_def split: option.splits if_splits)

lemma close_range:
  "step_inv s \<Longrightarrow> 0 \<le> step (fst (close s)) \<and>
     step (fst (close s)) \<le> int (length (instructions (fst (close s)))) \<and>
     instructions (fst (close s)) = instructions s"
  by (simp add: close_def step_inv_def step_inv'_def)

lemma Layout_iter_ok:
  assumes inv: "step_inv s"
  shows "ok_outcome (instructions s) (Layout_iter pl (s, ctx, gs))"
proof -
  let ?ins = "instructions s ! nat (step s)"
  let ?cp = "(step s > 0 \<and> Type (instructions s ! nat (step s - 1)) = PrepareInstruction)"
  have idx: "index (instructions s) (step s) = Some ?ins"
    using step_inv_range[OF inv] by (simp add: index_Some)
  show ?thesis
  proof (cases "Progress (Now pl) (es_confirm s) = 1")
    case True
    then have run: "Running (es_confirm s)" by (rule Progress_1_Running)
    have ne: "\<not> errs (engrave s)" using step_inv_not_errs[OF inv] run by simp
    from moveStep_ok[OF inv ne, of pl] run
    show ?thesis using idx True
      by (auto simp: Layout_iter_def Let_def moveStep_instructions split: sum.splits prod.splits if_splits)
  next
    case False
    obtain s1 ctx1 where d: "Layout_dryRun pl (s, ctx) = (s1, ctx1)"
      by (cases "Layout_dryRun pl (s, ctx)")
    note di = Layout_dryRun_inv[OF d]
    have inv1: "step_inv s1" using di inv by simp
    have ev: "ok_outcome (instructions s) (Layout_event pl ?cp ?ins (s', c, gs))"
      if "step_inv s'" "instructions s' = instructions s" "step s' = step s" for s' c
      using Layout_event_ok[OF that(1), of ?ins ?cp pl c gs] that(2,3) by simp
    show ?thesis
    proof (cases "es_cancel s1")
      case (Some cw)
      obtain r cw' ctx2 where c: "ConfirmWarningScreen_Layout (Now pl) cw ctx1 = (r, cw', ctx2)"
        by (cases "ConfirmWarningScreen_Layout (Now pl) cw ctx1")
      let ?s2 = "s1\<lparr>es_cancel := Some cw'\<rparr>"
      have inv2: "step_inv ?s2" "step_inv (?s2\<lparr>es_cancel := None\<rparr>)"
        using inv1 by (simp_all add: step_inv_def)
      have e2: "ok_outcome (instructions s) (Layout_event pl ?cp ?ins (?s2, ctx2, gs))"
        using ev[OF inv2(1)] di by simp
      show ?thesis using idx False d Some c inv2 e2 close_range[OF inv2(1)] di
        by (cases r) (auto simp: Layout_iter_def Let_def)
    next
      case None
      show ?thesis
      proof (cases "warning (engrave s1)")
        case N2: None
        have e1: "ok_outcome (instructions s) (Layout_event pl ?cp ?ins (s1, ctx1, gs))"
          using ev[OF inv1] di by simp
        show ?thesis using idx False d None N2 e1 by (simp add: Layout_iter_def Let_def)
      next
        case (Some wn)
        obtain dis ctx2 where e: "ErrorScreen_Layout ctx1 = (dis, ctx2)"
          by (cases "ErrorScreen_Layout ctx1")
        let ?s2 = "s1\<lparr>engrave := (engrave s1)\<lparr>warning := None\<rparr>\<rparr>"
        have inv2: "step_inv ?s2" using inv1 by (simp add: step_inv_def)
        have e1: "ok_outcome (instructions s) (Layout_event pl ?cp ?ins (s1, ctx2, gs))"
          using ev[OF inv1] di by simp
        show ?thesis using idx False d None Some e inv2 e1 close_range[OF inv2] di
          by (auto simp: Layout_iter_def Let_def)
      qed
    qed
  qed
qed

lemma Layout_loop_ok:
  "step_inv s \<Longrightarrow>
   (case Layout_loop pl (s, ctx, gs) of
      Inl p \<Rightarrow> p = SideIndex
    | Inr (b, s', ctx', gs') \<Rightarrow>
        instructions s' = instructions s \<and>
        (b \<longrightarrow> 0 \<le> step s' \<and> step s' \<le> int (length (instructions s'))) \<and>
        (\<not> b \<longrightarrow> step_inv s'))"
proof (induction pl "(s, ctx, gs)" arbitrary: s ctx gs rule: Layout_loop.induct)
  case (1 pl s ctx gs)
  note ok = Layout_iter_ok[OF "1.prems", of pl ctx gs]
  show ?case
  proof (cases "Layout_iter pl (s, ctx, gs)")
    case (Continue w')
    obtain s1 ctx1 gs1 where w': "w' = (s1, ctx1, gs1)" by (cases w')
    from ok Continue w' have i: "step_inv s1" "instructions s1 = instructions s" by simp_all
    from "1.hyps"[OF Continue[unfolded w'] i(1)] i(2) Continue w'
    show ?thesis by (subst Layout_loop.simps) (auto split: sum.splits prod.splits)
  next
    case (Break w')
    then show ?thesis using ok by (subst Layout_loop.simps) (cases w', auto)
  next
    case (Done w')
    then show ?thesis using ok by (subst Layout_loop.simps) (cases w', auto)
  next
    case (Panicked p)
    then show ?thesis using ok by (subst Layout_loop.simps) simp
  qed
qed

lemma Layout_ok:
  assumes inv: "step_inv s"
  shows "case Layout pl inbox (s, ctx, gs) of
      Inl p \<Rightarrow> p = SideIndex
    | Inr (b, s', ctx', gs') \<Rightarrow>
        instructions s' = instructions s \<and>
        (b \<longrightarrow> 0 \<le> step s' \<and> step s' \<le> int (length (instructions s'))) \<and>
        (\<not> b \<longrightarrow> step_inv s')"
proof -
  obtain d s1 ctx1 where r: "Layout_recv inbox (s, ctx) = (d, s1, ctx1)"
    by (cases "Layout_recv inbox (s, ctx)")
  note ro = Layout_recv_ok[OF inv r]
  show ?thesis
  proof (cases d)
    case True
    then show ?thesis using r ro by (auto simp: Layout_def)
  next
    case False
    then have i: "step_inv s1" using ro by simp
    from Layout_loop_ok[OF i, of pl ctx1 gs] ro False r
    show ?thesis by (auto simp: Layout_def split: sum.splits prod.splits)
  qed
qed

text \<open>
  The screens that are active: a new screen, and a screen after a call of \<^verbatim>\<open>Layout\<close> that
  returned \<^verbatim>\<open>false\<close> (when it returns \<^verbatim>\<open>true\<close> the owner discards the screen).
\<close>

inductive active :: "EngraveScreen \<Rightarrow> bool" where
  new: "active (NewEngraveScreen ctx nsides)"
| layout: "active s \<Longrightarrow> Layout pl inbox (s, ctx, gs) = Inr (False, s', ctx', gs') \<Longrightarrow> active s'"

lemma active_inv: "active s \<Longrightarrow> step_inv s"
proof (induction rule: active.induct)
  case (new ctx nsides)
  show ?case by (rule step_inv_New)
next
  case (layout s pl inbox ctx gs s' ctx' gs')
  from Layout_ok[OF layout.IH, of pl inbox ctx gs] layout.hyps(2) show ?case by simp
qed

text \<open>
  C9. For every active engrave screen the step is an index of the instruction list, and a
  call of \<^verbatim>\<open>Layout\<close>, whatever the events, the clock, the engraver and the worker's
  messages are, never indexes the list out of range; when it returns \<^verbatim>\<open>true\<close> the step is
  at most the length of the list.
\<close>

theorem step_in_range:
  assumes "active s"
  shows "0 \<le> step s \<and> step s < int (length (instructions s)) \<and>
         Layout pl inbox (s, ctx, gs) \<noteq> Inl InstructionIndex \<and>
         (\<forall>s' ctx' gs'. Layout pl inbox (s, ctx, gs) = Inr (True, s', ctx', gs') \<longrightarrow>
            0 \<le> step s' \<and> step s' \<le> int (length (instructions s')))"
proof -
  note inv = active_inv[OF assms]
  from Layout_ok[OF inv, of pl inbox ctx gs] step_inv_range[OF inv]
  show ?thesis by (auto split: sum.splits)
qed

theorem step_in_range_witness:
  "step (NewEngraveScreen ctx0 2) = 0 \<and> length (instructions (NewEngraveScreen ctx0 2)) = 16 \<and>
   Layout \<lparr>Now = 0, Engraver = None\<rparr> [] (NewEngraveScreen ctx0 2, ctx0, []) \<noteq> Inl InstructionIndex"
  using step_in_range[OF active.new[of ctx0 2], of "\<lparr>Now = 0, Engraver = None\<rparr>" "[]" ctx0 "[]"]
  by (simp add: NewEngraveScreen_def ctx0_def EngraveFirstSideA_def EngraveSideB_def EngraveSuccess_def)


section \<open>Hold to confirm (C3)\<close>






























section \<open>Word keyboard (C10)\<close>

subsection \<open>Letters\<close>

definition lower_letter :: "char \<Rightarrow> bool" where
  "lower_letter c \<longleftrightarrow> CHR ''a'' \<le> c \<and> c \<le> CHR ''z''"

definition upper_letter :: "char \<Rightarrow> bool" where
  "upper_letter c \<longleftrightarrow> CHR ''A'' \<le> c \<and> c \<le> CHR ''Z''"

lemma lower_letter_code: "lower_letter c \<longleftrightarrow> 97 \<le> (of_char c :: nat) \<and> (of_char c :: nat) \<le> 122"
  by (simp add: lower_letter_def less_eq_char_def)

lemma upper_letter_code: "upper_letter c \<longleftrightarrow> 65 \<le> (of_char c :: nat) \<and> (of_char c :: nat) \<le> 90"
  by (simp add: upper_letter_def less_eq_char_def)

lemma of_char_upperChar:
  "lower_letter c \<Longrightarrow> (of_char (upperChar c) :: nat) = of_char c - 32"
  by (auto simp: upperChar_def lower_letter_code lower_letter_def[symmetric])

lemma of_char_lowerChar:
  "upper_letter c \<Longrightarrow> (of_char (lowerChar c) :: nat) = of_char c + 32"
  by (auto simp: lowerChar_def upper_letter_code upper_letter_def[symmetric])

lemma upper_upperChar: "lower_letter c \<Longrightarrow> upper_letter (upperChar c)"
  by (auto simp: upper_letter_code of_char_upperChar lower_letter_code)

lemma lower_lowerChar: "upper_letter c \<Longrightarrow> lower_letter (lowerChar c)"
  by (auto simp: lower_letter_code of_char_lowerChar upper_letter_code)

lemma of_char_inj: "(of_char c :: nat) = of_char d \<Longrightarrow> c = d"
  by simp

lemma lowerChar_upperChar: "lower_letter c \<Longrightarrow> lowerChar (upperChar c) = c"
  by (rule of_char_inj)
     (auto simp: of_char_lowerChar upper_upperChar of_char_upperChar lower_letter_code)

lemma upperChar_lowerChar: "upper_letter c \<Longrightarrow> upperChar (lowerChar c) = c"
  by (rule of_char_inj)
     (auto simp: of_char_upperChar lower_lowerChar of_char_lowerChar)

lemma ToLower_ToUpper: "\<forall>c\<in>set w. lower_letter c \<Longrightarrow> ToLower (ToUpper w) = w"
  by (induction w) (simp_all add: ToLower_def ToUpper_def lowerChar_upperChar)

lemma idxForRune_upper:
  "lower_letter c \<Longrightarrow> idxForRune (of_char (upperChar c)) = Some (of_char c - 97)"
proof -
  assume l: "lower_letter c"
  have "(of_char (upperChar c) :: int) = int (of_char (upperChar c))"
    by (simp add: of_nat_of_char)
  also have "\<dots> = int (of_char c - 32)" using l by (simp add: of_char_upperChar)
  finally have "(of_char (upperChar c) :: int) = int (of_char c) - 32"
    using l by (simp add: lower_letter_code)
  then show ?thesis using l by (auto simp: idxForRune_def Let_def lower_letter_code)
qed

subsection \<open>Lexicographic order and prefixes\<close>

lemma prefix_between:
  fixes x y z :: string
  shows "x \<le> y \<Longrightarrow> y \<le> z \<Longrightarrow> prefix p x \<Longrightarrow> prefix p z \<Longrightarrow> prefix p y"
proof (induction p arbitrary: x y z)
  case Nil
  then show ?case by simp
next
  case (Cons c p)
  from Cons.prems(3) obtain x' where x: "x = c # x'" "prefix p x'"
    by (cases x) simp_all
  from Cons.prems(4) obtain z' where z: "z = c # z'" "prefix p z'"
    by (cases z) simp_all
  show ?case
  proof (cases y)
    case Nil
    then show ?thesis using Cons.prems x by simp
  next
    case (Cons d y')
    from Cons.prems(1,2) x z Cons have "c = d" "x' \<le> y'" "y' \<le> z'" by auto
    then show ?thesis using Cons.IH[of x' y' z'] x z Cons by simp
  qed
qed

lemma prefix_le: fixes p x :: string shows "prefix p x \<Longrightarrow> p \<le> x"
proof (induction p arbitrary: x)
  case Nil
  then show ?case by simp
next
  case (Cons a p)
  then show ?case by (cases x) auto
qed

subsection \<open>The mask\<close>

lemma mask_bit_test:
  fixes m :: "32 word"
  shows "idx < 32 \<Longrightarrow> m AND push_bit idx 1 = 0 \<longleftrightarrow> \<not> bit m idx"
  by (simp add: and_exp_eq_0_iff_not_bit)

lemma mask_bit_clear:
  fixes m :: "32 word"
  shows "bit (m AND NOT (push_bit idx 1)) i \<longleftrightarrow> bit m i \<and> i \<noteq> idx"
  by (auto simp: bit_simps dest: bit_imp_le_length)

subsection \<open>The word list\<close>

text \<open>
  The word list of BIP-39 is not empty, it is sorted without repetition, and its words
  consist of the letters \<open>a\<close> to \<open>z\<close>.
\<close>

definition wordlist_ok :: "string list \<Rightarrow> bool" where
  "wordlist_ok wl \<longleftrightarrow>
     wl \<noteq> [] \<and> sorted_wrt (<) wl \<and> (\<forall>w\<in>set wl. \<forall>c\<in>set w. lower_letter c)"

definition completions :: "string list \<Rightarrow> string \<Rightarrow> string list" where
  "completions wl word = filter (prefix word) wl"

lemma sorted_nth_le:
  fixes wl :: "string list"
  shows "sorted_wrt (<) wl \<Longrightarrow> i \<le> j \<Longrightarrow> j < length wl \<Longrightarrow> wl ! i \<le> wl ! j"
  by (cases "i = j") (auto simp: sorted_wrt_iff_nth_less less_imp_le)

lemma filter_takeWhile:
  "(\<And>i j. i \<le> j \<Longrightarrow> j < length xs \<Longrightarrow> P (xs ! j) \<Longrightarrow> P (xs ! i)) \<Longrightarrow>
   filter P xs = takeWhile P xs"
proof (induction xs)
  case Nil
  then show ?case by simp
next
  case (Cons x xs)
  have down: "\<And>i j. i \<le> j \<Longrightarrow> j < length xs \<Longrightarrow> P (xs ! j) \<Longrightarrow> P (xs ! i)"
    using Cons.prems[of "Suc _" "Suc _"] by simp
  show ?case
  proof (cases "P x")
    case True
    then show ?thesis using Cons.IH[OF down] by simp
  next
    case False
    have "\<not> P y" if "y \<in> set xs" for y
    proof
      assume "P y"
      from that obtain j where "j < length xs" "xs ! j = y" by (auto simp: in_set_conv_nth)
      with Cons.prems[of 0 "Suc j"] \<open>P y\<close> False show False by simp
    qed
    then have "filter P xs = []" by (simp add: filter_empty_conv)
    then show ?thesis using False by simp
  qed
qed

lemma ClosestWord_Some:
  "ClosestWord wl word = Some w \<Longrightarrow>
   w < length wl \<and> prefix word (wl ! w) \<and> (\<forall>j<w. \<not> prefix word (wl ! j))"
  by (auto simp: ClosestWord_def find_Some_iff)

lemma ClosestWord_None: "ClosestWord wl word = None \<longleftrightarrow> completions wl word = []"
  by (auto simp: ClosestWord_def find_None_iff completions_def filter_empty_conv in_set_conv_nth
      dest: nth_mem)

lemma completions_run:
  assumes s: "sorted_wrt (<) wl" and c: "ClosestWord wl word = Some w"
  shows "completions wl word = takeWhile (prefix word) (drop w wl)"
proof -
  note cw = ClosestWord_Some[OF c]
  have "filter (prefix word) (take w wl) = []"
    using cw by (auto simp: filter_empty_conv in_set_conv_nth)
  moreover have "filter (prefix word) (drop w wl) = takeWhile (prefix word) (drop w wl)"
  proof (rule filter_takeWhile)
    fix i j assume ij: "i \<le> j" "j < length (drop w wl)" "prefix word (drop w wl ! j)"
    then have j: "w + j < length wl" "prefix word (wl ! (w + j))" by simp_all
    have "wl ! w \<le> wl ! (w + i)" "wl ! (w + i) \<le> wl ! (w + j)"
      using sorted_nth_le[OF s] j ij by simp_all
    from prefix_between[OF this _ j(2)] cw have "prefix word (wl ! (w + i))" by simp
    then show "prefix word (drop w wl ! i)" using ij j by simp
  qed
  ultimately show ?thesis
    unfolding completions_def by (subst append_take_drop_id[of w wl, symmetric], simp only: filter_append) simp
qed

subsection \<open>The loop of updateMask\<close>

definition next_idx :: "string \<Rightarrow> string \<Rightarrow> nat" where
  "next_idx word b = of_char (b ! length word) - 97"

lemma hd_ToUpper_drop:
  "n < length b \<Longrightarrow> hd (ToUpper (drop n b)) = upperChar (b ! n)"
  by (simp add: ToUpper_def hd_map hd_drop_conv_nth)

lemma updateMask_loop_run:
  "\<forall>b\<in>set xs. \<forall>c\<in>set b. lower_letter c \<Longrightarrow>
   \<exists>m'. updateMask_loop word xs (n, m) = Some (n + int (length (takeWhile (prefix word) xs)), m') \<and>
        (\<forall>i. bit m' i \<longleftrightarrow> bit m i \<and>
           \<not> (\<exists>b\<in>set (takeWhile (prefix word) xs). length word < length b \<and> next_idx word b = i))"
proof (induction xs arbitrary: n m)
  case Nil
  then show ?case by simp
next
  case (Cons b xs)
  from Cons.prems have low: "\<forall>b\<in>set xs. \<forall>c\<in>set b. lower_letter c" and lb: "\<forall>c\<in>set b. lower_letter c"
    by simp_all
  show ?case
  proof (cases "prefix word b")
    case False
    then show ?thesis by simp
  next
    case True
    show ?thesis
    proof (cases "length word < length b")
      case F: False
      from Cons.IH[OF low, of "n + 1" m] obtain m' where
        "updateMask_loop word xs (n + 1, m) = Some (n + 1 + int (length (takeWhile (prefix word) xs)), m')"
        "\<forall>i. bit m' i \<longleftrightarrow> bit m i \<and>
           \<not> (\<exists>b\<in>set (takeWhile (prefix word) xs). length word < length b \<and> next_idx word b = i)"
        by blast
      then show ?thesis using True F by (auto simp: Let_def)
    next
      case T: True
      let ?idx = "next_idx word b"
      have "lower_letter (b ! length word)" using lb T by simp
      then have ix: "idxForRune (of_char (hd (ToUpper (drop (length word) b)))) = Some ?idx"
        using T by (simp add: hd_ToUpper_drop idxForRune_upper next_idx_def)
      from Cons.IH[OF low, of "n + 1" "m AND NOT (push_bit ?idx 1)"] obtain m' where
        m': "updateMask_loop word xs (n + 1, m AND NOT (push_bit ?idx 1))
             = Some (n + 1 + int (length (takeWhile (prefix word) xs)), m')"
        "\<forall>i. bit m' i \<longleftrightarrow> bit (m AND NOT (push_bit ?idx 1)) i \<and>
           \<not> (\<exists>b\<in>set (takeWhile (prefix word) xs). length word < length b \<and> next_idx word b = i)"
        by blast
      have "updateMask_loop word (b # xs) (n, m)
          = Some (n + int (length (takeWhile (prefix word) (b # xs))), m')"
        using True T ix m'(1) by (simp add: Let_def)
      moreover have "\<forall>i. bit m' i \<longleftrightarrow> bit m i \<and>
           \<not> (\<exists>b'\<in>set (takeWhile (prefix word) (b # xs)). length word < length b' \<and> next_idx word b' = i)"
        using m'(2) True T unfolding mask_bit_clear by auto
      ultimately show ?thesis by blast
    qed
  qed
qed

subsection \<open>The keyboard between two keys\<close>

text \<open>
  What holds of the keyboard after every key: the word consists of capital letters and
  has a completion, \<open>nvalid\<close> counts its completions, and the mask marks as valid exactly
  the letters that continue the word to a completion, unless there is only one.
\<close>

definition kinv :: "string list \<Rightarrow> Keyboard \<Rightarrow> bool" where
  "kinv wl k \<longleftrightarrow>
     (let word = ToLower (Word k) in
      (\<forall>c\<in>set (Word k). upper_letter c) \<and>
      completions wl word \<noteq> [] \<and>
      nvalid k = int (length (completions wl word)) \<and>
      (nvalid k = 1 \<longrightarrow> mask k = - 1) \<and>
      (nvalid k \<noteq> 1 \<longrightarrow>
         (\<forall>i<32. bit (mask k) i \<longleftrightarrow>
            \<not> (\<exists>b\<in>set (completions wl word). length word < length b \<and> next_idx word b = i))))"

lemma bit_minus_1_word32: "i < 32 \<Longrightarrow> bit (- 1 :: 32 word) i"
  by simp

lemma updateMask_kinv:
  assumes ok: "wordlist_ok wl" and up: "\<forall>c\<in>set (Word k). upper_letter c"
    and ne: "completions wl (ToLower (Word k)) \<noteq> []"
  shows "\<exists>k'. updateMask wl k = Some k' \<and> Word k' = Word k \<and> kinv wl k'"
proof -
  let ?word = "ToLower (Word k)"
  from ne obtain w where c: "ClosestWord wl ?word = Some w"
    using ClosestWord_None[of wl ?word] by (cases "ClosestWord wl ?word") auto
  from ok have s: "sorted_wrt (<) wl" and low: "\<forall>b\<in>set (drop w wl). \<forall>c\<in>set b. lower_letter c"
    by (auto simp: wordlist_ok_def dest: in_set_dropD)
  note run = completions_run[OF s c]
  from updateMask_loop_run[OF low, of ?word 0 "- 1"] obtain m' where
    m': "updateMask_loop ?word (drop w wl) (0, - 1) = Some (int (length (completions wl ?word)), m')"
    "\<forall>i. bit m' i \<longleftrightarrow> bit (- 1 :: 32 word) i \<and>
       \<not> (\<exists>b\<in>set (completions wl ?word). length ?word < length b \<and> next_idx ?word b = i)"
    unfolding run by auto
  let ?n = "int (length (completions wl ?word))"
  let ?k' = "k\<lparr>mask := - 1, nvalid := ?n, mask := (if ?n = 1 then - 1 else m')\<rparr>"
  have u: "updateMask wl k = Some ?k'"
    using c m'(1) by (simp add: updateMask_def Let_def)
  have "kinv wl ?k'"
    using up ne m'(2) by (simp add: kinv_def Let_def)
  then show ?thesis using u by simp
qed

lemma completion_lower:
  "wordlist_ok wl \<Longrightarrow> b \<in> set (completions wl word) \<Longrightarrow> n < length b \<Longrightarrow> lower_letter (b ! n)"
  by (auto simp: wordlist_ok_def completions_def)

lemma rune_of_next_idx:
  assumes l: "lower_letter c" and r: "idxForRune r = Some (of_char c - 97)"
  shows "r = of_char (upperChar c)"
proof -
  from r have "0 \<le> r - 65" "nat (r - 65) = of_char c - 97"
    by (auto simp: idxForRune_def Let_def split: if_splits)
  then have "r = int (of_char c - 97) + 65" by linarith
  also have "\<dots> = int (of_char c - 32)" using l by (simp add: lower_letter_code)
  also have "\<dots> = int (of_char (upperChar c))" using l by (simp add: of_char_upperChar)
  also have "\<dots> = of_char (upperChar c)" by (simp add: of_nat_of_char)
  finally show ?thesis .
qed

lemma Valid_letter:
  assumes ok: "wordlist_ok wl" and inv: "kinv wl k" and nb: "r \<noteq> backspace" and v: "Valid k r"
  shows "\<exists>b\<in>set (completions wl (ToLower (Word k))).
           length (ToLower (Word k)) < length b \<and>
           r = of_char (upperChar (b ! length (ToLower (Word k))))"
proof -
  let ?word = "ToLower (Word k)"
  from v nb obtain idx where i: "idxForRune r = Some idx" "mask k AND push_bit idx 1 = 0"
    by (auto simp: Valid_def split: option.splits)
  from i(1) have lt: "idx < 32" by (auto simp: idxForRune_def Let_def split: if_splits)
  from i(2) mask_bit_test[OF lt, of "mask k"] have nbit: "\<not> bit (mask k) idx" by blast
  have n1: "nvalid k \<noteq> 1"
  proof
    assume "nvalid k = 1"
    with inv have "mask k = - 1" by (simp add: kinv_def Let_def)
    with nbit lt show False by simp
  qed
  with inv nbit lt obtain b where b: "b \<in> set (completions wl ?word)" "length ?word < length b"
    "next_idx ?word b = idx"
    unfolding kinv_def Let_def by blast
  from rune_of_next_idx[OF completion_lower[OF ok b(1,2)]] i(1) b(3)
  have "r = of_char (upperChar (b ! length ?word))" by (simp add: next_idx_def)
  with b show ?thesis by blast
qed

lemma ToLower_append [simp]: "ToLower (xs @ ys) = ToLower xs @ ToLower ys"
  by (simp add: ToLower_def)

lemma ToLower_butlast: "ToLower (butlast xs) = butlast (ToLower xs)"
  by (simp add: ToLower_def map_butlast)

lemma length_ToLower [simp]: "length (ToLower xs) = length xs"
  by (simp add: ToLower_def)

lemma prefix_snoc_nth: "prefix p b \<Longrightarrow> length p < length b \<Longrightarrow> prefix (p @ [b ! length p]) b"
proof -
  assume "prefix p b" "length p < length b"
  then obtain zs where b: "b = p @ zs" "zs \<noteq> []" by (auto simp: prefix_def)
  then obtain z zs' where "zs = z # zs'" by (cases zs) auto
  with b show ?thesis by (simp add: prefix_def nth_append)
qed

lemma completions_mono: "prefix p q \<Longrightarrow> completions wl q \<noteq> [] \<Longrightarrow> completions wl p \<noteq> []"
  by (auto simp: completions_def filter_empty_conv intro: prefix_order.trans)

lemma kbd_rune_kinv:
  assumes ok: "wordlist_ok wl" and inv: "kinv wl k"
  shows "\<exists>k'. kbd_rune wl k r = Some k' \<and> kinv wl k'"
proof (cases "Valid k r")
  case False
  then show ?thesis using inv by (simp add: kbd_rune_def)
next
  case True
  from inv have up: "\<forall>c\<in>set (Word k). upper_letter c"
    and ne: "completions wl (ToLower (Word k)) \<noteq> []"
    by (simp_all add: kinv_def Let_def)
  show ?thesis
  proof (cases "r = backspace")
    case B: True
    let ?k1 = "k\<lparr>Word := butlast (Word k)\<rparr>"
    have u: "\<forall>c\<in>set (Word ?k1). upper_letter c" using up by (auto dest: in_set_butlastD)
    have "prefix (ToLower (Word ?k1)) (ToLower (Word k))"
      by (simp add: ToLower_butlast prefixeq_butlast)
    from completions_mono[OF this ne] have n: "completions wl (ToLower (Word ?k1)) \<noteq> []" .
    from updateMask_kinv[OF ok u n] show ?thesis using True B by (auto simp: kbd_rune_def)
  next
    case L: False
    from Valid_letter[OF ok inv L True] obtain b where
      b: "b \<in> set (completions wl (ToLower (Word k)))" "length (ToLower (Word k)) < length b"
        "r = of_char (upperChar (b ! length (ToLower (Word k))))"
      by blast
    let ?c = "b ! length (ToLower (Word k))"
    have lc: "lower_letter ?c" by (rule completion_lower[OF ok b(1,2)])
    have ch: "char_of r = upperChar ?c" using b(3) by simp
    let ?k1 = "k\<lparr>Word := Word k @ [char_of r]\<rparr>"
    have u: "\<forall>c\<in>set (Word ?k1). upper_letter c" using up ch upper_upperChar[OF lc] by simp
    have w: "ToLower (Word ?k1) = ToLower (Word k) @ [?c]"
      using ch lc by (simp add: ToLower_def lowerChar_upperChar)
    from b(1) have pb: "prefix (ToLower (Word k)) b" "b \<in> set wl" by (simp_all add: completions_def)
    have "prefix (ToLower (Word ?k1)) b" unfolding w by (rule prefix_snoc_nth[OF pb(1) b(2)])
    then have n: "completions wl (ToLower (Word ?k1)) \<noteq> []"
      using pb(2) by (auto simp: completions_def filter_empty_conv)
    from updateMask_kinv[OF ok u n] show ?thesis using True L by (auto simp: kbd_rune_def)
  qed
qed

lemma enter_kinv:
  "wordlist_ok wl \<Longrightarrow> kinv wl k \<Longrightarrow> \<exists>k'. enter wl k rs = Some k' \<and> kinv wl k'"
proof (induction rs arbitrary: k)
  case Nil
  then show ?case by simp
next
  case (Cons r rs)
  from kbd_rune_kinv[OF Cons.prems, of r] obtain k1 where
    k1: "kbd_rune wl k r = Some k1" "kinv wl k1" by blast
  from Cons.IH[OF Cons.prems(1) k1(2)] k1(1) show ?case by simp
qed

lemma NewKeyboard_kinv:
  assumes ok: "wordlist_ok wl"
  shows "\<exists>k. NewKeyboard wl = Some k \<and> Word k = [] \<and> kinv wl k"
proof -
  let ?k = "\<lparr>Word = [], nvalid = 0, mask = 0\<rparr>\<lparr>Word := []\<rparr>"
  have "completions wl (ToLower (Word ?k)) \<noteq> []"
    using ok by (simp add: completions_def wordlist_ok_def ToLower_def)
  from updateMask_kinv[OF ok _ this] show ?thesis by (auto simp: NewKeyboard_def Clear_def)
qed

lemma Complete_kinv:
  assumes inv: "kinv wl k"
  shows "\<exists>w. ClosestWord wl (ToLower (Word k)) = Some w \<and> w < length wl \<and>
             Complete wl k = (int w, nvalid k = 1 \<or> ToLower (Word k) = wl ! w)"
proof -
  from inv have "completions wl (ToLower (Word k)) \<noteq> []" by (simp add: kinv_def Let_def)
  then obtain w where c: "ClosestWord wl (ToLower (Word k)) = Some w"
    using ClosestWord_None[of wl "ToLower (Word k)"] by (cases "ClosestWord wl (ToLower (Word k))") auto
  from ClosestWord_Some[OF c] c show ?thesis by (simp add: Complete_def Let_def LabelFor_def)
qed

subsection \<open>Typing a word of the list\<close>

text \<open>
  While the letters of a word \<open>t\<close> of the list are typed, either the keyboard holds the
  first \<open>n\<close> letters, or the letters so far already determine one word, which is \<open>t\<close>, and
  the keyboard takes no more keys.
\<close>

definition typing :: "string list \<Rightarrow> string \<Rightarrow> nat \<Rightarrow> Keyboard \<Rightarrow> bool" where
  "typing wl t n k \<longleftrightarrow>
     kinv wl k \<and> prefix (ToLower (Word k)) t \<and> (Word k = ToUpper (take n t) \<or> nvalid k = 1)"

lemma upper_rune_not_backspace:
  "lower_letter c \<Longrightarrow> (of_char (upperChar c) :: int) \<noteq> backspace"
proof -
  assume l: "lower_letter c"
  have "(of_char (upperChar c) :: int) = int (of_char (upperChar c))"
    by (simp add: of_nat_of_char)
  also have "\<dots> = int (of_char c - 32)" using l by (simp add: of_char_upperChar)
  finally show ?thesis using l by (simp add: lower_letter_code backspace_def)
qed

lemma typing_step:
  assumes ok: "wordlist_ok wl" and t: "t \<in> set wl" and n: "n < length t"
    and ty: "typing wl t n k"
  shows "\<exists>k'. kbd_rune wl k (of_char (upperChar (t ! n))) = Some k' \<and> typing wl t (Suc n) k'"
proof -
  let ?r = "of_char (upperChar (t ! n)) :: int"
  from ok t have low: "\<forall>c\<in>set t. lower_letter c" by (simp add: wordlist_ok_def)
  with n have lc: "lower_letter (t ! n)" by simp
  note nb = upper_rune_not_backspace[OF lc]
  note idx = idxForRune_upper[OF lc]
  have i32: "of_char (t ! n) - 97 < (32::nat)" using lc unfolding lower_letter_code by linarith
  from ty have inv: "kinv wl k" and pre: "prefix (ToLower (Word k)) t"
    by (simp_all add: typing_def)
  show ?thesis
  proof (cases "nvalid k = 1")
    case True
    with inv have "mask k = - 1" by (simp add: kinv_def Let_def)
    then have "bit (mask k) (of_char (t ! n) - 97)" using i32 by simp
    then have "\<not> Valid k ?r"
      using nb idx mask_bit_test[OF i32, of "mask k"] by (simp add: Valid_def)
    then have "kbd_rune wl k ?r = Some k" by (simp add: kbd_rune_def)
    then show ?thesis using True inv pre by (simp add: typing_def)
  next
    case False
    with ty have W: "Word k = ToUpper (take n t)" by (simp add: typing_def)
    have lowt: "\<forall>c\<in>set (take n t). lower_letter c" using low by (auto dest: in_set_takeD)
    have word: "ToLower (Word k) = take n t" unfolding W by (rule ToLower_ToUpper[OF lowt])
    have tc: "t \<in> set (completions wl (take n t))"
      using t by (simp add: completions_def take_is_prefix)
    have len: "length (take n t) = n" using n by simp
    have "\<exists>b\<in>set (completions wl (take n t)). length (take n t) < length b \<and>
            next_idx (take n t) b = of_char (t ! n) - 97"
      using tc n len by (auto simp: next_idx_def intro!: bexI[of _ t])
    with inv False i32 have "\<not> bit (mask k) (of_char (t ! n) - 97)"
      unfolding kinv_def Let_def word by blast
    then have v: "Valid k ?r"
      using nb idx mask_bit_test[OF i32, of "mask k"] by (simp add: Valid_def)
    let ?k1 = "k\<lparr>Word := Word k @ [char_of ?r]\<rparr>"
    have W1: "Word ?k1 = ToUpper (take (Suc n) t)"
      using n by (simp add: W take_Suc_conv_app_nth ToUpper_def)
    have low1: "\<forall>c\<in>set (take (Suc n) t). lower_letter c" using low by (auto dest: in_set_takeD)
    have up1: "\<forall>c\<in>set (Word ?k1). upper_letter c"
      unfolding W1 using low1 by (auto simp: ToUpper_def upper_upperChar)
    have word1: "ToLower (Word ?k1) = take (Suc n) t"
      unfolding W1 by (rule ToLower_ToUpper[OF low1])
    have ne1: "completions wl (ToLower (Word ?k1)) \<noteq> []"
      unfolding word1 using t take_is_prefix[of "Suc n" t]
      by (auto simp: completions_def filter_empty_conv)
    from updateMask_kinv[OF ok up1 ne1] obtain k' where
      k': "updateMask wl ?k1 = Some k'" "Word k' = Word ?k1" "kinv wl k'" by blast
    have "kbd_rune wl k ?r = Some k'" using v nb k'(1) by (simp add: kbd_rune_def)
    moreover have "typing wl t (Suc n) k'"
      using k'(2,3) W1 word1 by (simp add: typing_def take_is_prefix)
    ultimately show ?thesis by blast
  qed
qed

lemma typing_enter:
  assumes ok: "wordlist_ok wl" and t: "t \<in> set wl"
  shows "n \<le> length t \<Longrightarrow> typing wl t n k \<Longrightarrow>
         \<exists>k'. enter wl k (map (\<lambda>c. of_char (upperChar c)) (drop n t)) = Some k' \<and>
              typing wl t (length t) k'"
proof (induction "length t - n" arbitrary: n k)
  case 0
  then show ?case by simp
next
  case (Suc d)
  then have n: "n < length t" by simp
  from typing_step[OF ok t n Suc.prems(2)] obtain k1 where
    k1: "kbd_rune wl k (of_char (upperChar (t ! n))) = Some k1" "typing wl t (Suc n) k1" by blast
  have d: "d = length t - Suc n" using Suc.hyps(2) by simp
  from Suc.hyps(1)[OF d _ k1(2)] n obtain k' where
    k': "enter wl k1 (map (\<lambda>c. of_char (upperChar c)) (drop (Suc n) t)) = Some k'"
      "typing wl t (length t) k'" by auto
  have "drop n t = t ! n # drop (Suc n) t" using n by (simp add: Cons_nth_drop_Suc)
  then show ?case using k1(1) k' by simp
qed

lemma sorted_wrt_nth_inj:
  fixes wl :: "string list"
  assumes s: "sorted_wrt (<) wl" and i: "i < length wl" and j: "j < length wl"
    and e: "wl ! i = wl ! j"
  shows "i = j"
proof (rule ccontr)
  assume "i \<noteq> j"
  then consider "i < j" | "j < i" by linarith
  then show False
  proof cases
    case 1
    with s j have "wl ! i < wl ! j" by (simp add: sorted_wrt_iff_nth_less)
    with e show False by simp
  next
    case 2
    with s i have "wl ! j < wl ! i" by (simp add: sorted_wrt_iff_nth_less)
    with e show False by simp
  qed
qed

lemma ClosestWord_word:
  assumes ok: "wordlist_ok wl" and i: "i < length wl"
  shows "ClosestWord wl (wl ! i) = Some i"
proof -
  from ok have s: "sorted_wrt (<) wl" by (simp add: wordlist_ok_def)
  have "completions wl (wl ! i) \<noteq> []"
    using i by (auto simp: completions_def filter_empty_conv)
  then obtain w where c: "ClosestWord wl (wl ! i) = Some w"
    using ClosestWord_None[of wl "wl ! i"] by (cases "ClosestWord wl (wl ! i)") auto
  note cw = ClosestWord_Some[OF c]
  have "\<not> i < w" using cw by auto
  moreover have "\<not> w < i"
  proof
    assume "w < i"
    with s i have "wl ! w < wl ! i" by (simp add: sorted_wrt_iff_nth_less)
    moreover from cw have "wl ! i \<le> wl ! w" by (simp add: prefix_le)
    ultimately show False by simp
  qed
  ultimately show ?thesis using c by simp
qed

lemma typing_Complete:
  assumes ok: "wordlist_ok wl" and i: "i < length wl"
    and ty: "typing wl (wl ! i) (length (wl ! i)) k"
  shows "Complete wl k = (int i, True)"
proof -
  let ?t = "wl ! i"
  from ok have s: "sorted_wrt (<) wl" and low: "\<forall>c\<in>set ?t. lower_letter c"
    using i by (auto simp: wordlist_ok_def)
  from ty have inv: "kinv wl k" and pre: "prefix (ToLower (Word k)) ?t"
    by (simp_all add: typing_def)
  from Complete_kinv[OF inv] obtain w where
    w: "ClosestWord wl (ToLower (Word k)) = Some w" "w < length wl"
      "Complete wl k = (int w, nvalid k = 1 \<or> ToLower (Word k) = wl ! w)" by blast
  show ?thesis
  proof (cases "nvalid k = 1")
    case True
    with inv have "length (completions wl (ToLower (Word k))) = 1" by (simp add: kinv_def Let_def)
    then obtain b where b: "completions wl (ToLower (Word k)) = [b]"
      by (cases "completions wl (ToLower (Word k))") auto
    have "?t \<in> set (completions wl (ToLower (Word k)))"
      using pre i by (simp add: completions_def)
    moreover have "wl ! w \<in> set (completions wl (ToLower (Word k)))"
      using ClosestWord_Some[OF w(1)] by (simp add: completions_def)
    ultimately have "wl ! w = wl ! i" unfolding b by simp
    from sorted_wrt_nth_inj[OF s w(2) i this] have "w = i" .
    then show ?thesis using w(3) True by simp
  next
    case False
    with ty have "Word k = ToUpper ?t" by (simp add: typing_def)
    then have word: "ToLower (Word k) = ?t" using ToLower_ToUpper[OF low] by simp
    from w(1) ClosestWord_word[OF ok i] have "w = i" unfolding word by simp
    then show ?thesis using w(3) word by simp
  qed
qed

lemma Complete_no_completion:
  "completions wl (ToLower (Word k)) = [] \<Longrightarrow> Complete wl k = (- 1, False)"
  using ClosestWord_None[of wl "ToLower (Word k)"] by (simp add: Complete_def Let_def)

lemma Complete_sound:
  assumes inv: "kinv wl k" and c: "snd (Complete wl k)"
  shows "ToLower (Word k) \<in> set wl \<or> length (completions wl (ToLower (Word k))) = 1"
proof -
  from Complete_kinv[OF inv] obtain w where
    w: "w < length wl" "Complete wl k = (int w, nvalid k = 1 \<or> ToLower (Word k) = wl ! w)"
    by blast
  from inv have "nvalid k = int (length (completions wl (ToLower (Word k))))"
    by (simp add: kinv_def Let_def)
  with w c show ?thesis by auto
qed

text \<open>
  C10. Let the word list be as that of BIP-39: not empty, sorted without repetition, its
  words made of the letters \<open>a\<close> to \<open>z\<close>. A new keyboard exists (\<^verbatim>\<open>updateMask\<close> does not
  panic), and from it: entering the letters of the word with index \<open>i\<close> makes
  \<^verbatim>\<open>Complete\<close> return \<open>i\<close>, marked complete; after any sequence of runes whatsoever the
  keyboard has not panicked, and \<^verbatim>\<open>Complete\<close> marks the word complete only if the typed
  letters are a word of the list or have exactly one completion in it. For every keyboard
  value, \<^verbatim>\<open>Complete\<close> returns \<open>(-1, false)\<close> when no word of the list starts with the typed
  letters.
\<close>

theorem keyboard_Complete:
  assumes "wordlist_ok wl"
  shows "\<exists>k0. NewKeyboard wl = Some k0 \<and>
     (\<forall>i<length wl. \<exists>k. enter wl k0 (letters (wl ! i)) = Some k \<and> Complete wl k = (int i, True)) \<and>
     (\<forall>rs. \<exists>k. enter wl k0 rs = Some k \<and>
        (snd (Complete wl k) \<longrightarrow>
           ToLower (Word k) \<in> set wl \<or> length (completions wl (ToLower (Word k))) = 1)) \<and>
     (\<forall>k. completions wl (ToLower (Word k)) = [] \<longrightarrow> Complete wl k = (- 1, False))"
proof -
  from NewKeyboard_kinv[OF assms] obtain k0 where
    k0: "NewKeyboard wl = Some k0" "Word k0 = []" "kinv wl k0" by blast
  have a: "\<exists>k. enter wl k0 (letters (wl ! i)) = Some k \<and> Complete wl k = (int i, True)"
    if i: "i < length wl" for i
  proof -
    have t: "wl ! i \<in> set wl" using i by simp
    have "typing wl (wl ! i) 0 k0" using k0 by (simp add: typing_def ToLower_def ToUpper_def)
    from typing_enter[OF assms t _ this] obtain k where
      k: "enter wl k0 (map (\<lambda>c. of_char (upperChar c)) (wl ! i)) = Some k"
        "typing wl (wl ! i) (length (wl ! i)) k" by auto
    have "letters (wl ! i) = map (\<lambda>c. of_char (upperChar c)) (wl ! i)"
      by (simp add: letters_def ToUpper_def)
    with k(1) typing_Complete[OF assms i k(2)] show ?thesis by simp
  qed
  have b: "\<exists>k. enter wl k0 rs = Some k \<and>
        (snd (Complete wl k) \<longrightarrow>
           ToLower (Word k) \<in> set wl \<or> length (completions wl (ToLower (Word k))) = 1)" for rs
  proof -
    from enter_kinv[OF assms k0(3), of rs] obtain k where
      k: "enter wl k0 rs = Some k" "kinv wl k" by blast
    with Complete_sound[OF k(2)] show ?thesis by blast
  qed
  from k0(1) a b Complete_no_completion show ?thesis by blast
qed

text \<open>
  A list of three words: typing \<open>ACTION\<close> stops at \<open>ACTI\<close>, where one word is left, and
  \<^verbatim>\<open>Complete\<close> returns that word; typing \<open>ACT\<close> gives the first word, which is in the list
  although \<open>action\<close> continues it.
\<close>

definition wl3 :: "string list" where
  "wl3 = [''act'', ''action'', ''bad'']"

theorem keyboard_Complete_witness:
  "wordlist_ok wl3 \<and>
   Complete wl3 (the (enter wl3 (the (NewKeyboard wl3)) (letters ''action''))) = (1, True) \<and>
   Complete wl3 (the (enter wl3 (the (NewKeyboard wl3)) (letters ''act''))) = (0, True)"
proof -
  have ok: "wordlist_ok wl3"
    by (simp add: wordlist_ok_def wl3_def lower_letter_def)
  from keyboard_Complete[OF ok] obtain k0 where
    k0: "NewKeyboard wl3 = Some k0"
    and a: "\<forall>i<length wl3. \<exists>k. enter wl3 k0 (letters (wl3 ! i)) = Some k \<and>
              Complete wl3 k = (int i, True)"
    by blast
  from a[rule_format, of 1] a[rule_format, of 0] k0 ok show ?thesis
    by (auto simp: wl3_def)
qed


end
